theory Spec2Isabelle
  imports Main
begin

section \<open>JavaScript primitives used by the deal tracker\<close>

text \<open>
  The tracker (bbov3.js) keeps calls and cards as JavaScript strings: a call is
  \<open>''p''\<close>, \<open>''d''\<close>, \<open>''r''\<close> or a two-character bid such as \<open>''1S''\<close>; a card
  is a suit letter followed by a rank letter, such as \<open>''SA''\<close>. The string and
  array operations the code relies on are written out here with their behaviour
  out of range.
\<close>

datatype js_error = TypeError | RangeError

text \<open>\<open>s.charAt(i)\<close>: the one-character string at position \<open>i\<close>, or the empty string.\<close>

definition charAt :: "string \<Rightarrow> nat \<Rightarrow> string" where
  "charAt s i = (if i < length s then [s ! i] else [])"

text \<open>\<open>s.indexOf(p)\<close>: position of the first occurrence of \<open>p\<close> in \<open>s\<close>, or \<open>-1\<close>.\<close>

fun indexOf_from :: "string \<Rightarrow> string \<Rightarrow> int \<Rightarrow> int" where
  "indexOf_from [] p k = (if p = [] then k else - 1)"
| "indexOf_from (c # cs) p k =
     (if take (length p) (c # cs) = p then k else indexOf_from cs p (k + 1))"

definition indexOf :: "string \<Rightarrow> string \<Rightarrow> int" where
  "indexOf s p = indexOf_from s p 0"

text \<open>The remainder operator \<open>a % b\<close> on integers: the sign follows the dividend.\<close>

definition js_rem :: "int \<Rightarrow> int \<Rightarrow> int" where
  "js_rem a b = sgn a * (\<bar>a\<bar> mod \<bar>b\<bar>)"

text \<open>\<open>xs[i]\<close> on an array: \<open>None\<close> stands for \<open>undefined\<close>.\<close>

definition js_index :: "'a list \<Rightarrow> int \<Rightarrow> 'a option" where
  "js_index xs i = (if 0 \<le> i \<and> i < int (length xs) then Some (xs ! nat i) else None)"

section \<open>The tracker state\<close>

text \<open>
  \<open>app.trick\<close> is an object with a leader (a seat index in BBO order, 0 = South,
  1 = West, 2 = North, 3 = East; \<open>None\<close> stands for \<open>NaN\<close>, which arises from
  arithmetic on an undefined declarer) and the cards played to it so far.
\<close>

record trick_obj =
  leader :: "int option"
  cards :: "string list"

text \<open>
  The fields of \<open>app.deal\<close> that the call, card and undo handlers read or write,
  together with the global \<open>app.trick\<close>. An \<open>option\<close> field is \<open>None\<close> where the
  JavaScript property is \<open>undefined\<close>. Time stamps are milliseconds.
\<close>

record app =
  dealer :: string
  blast1_complete :: bool
  blast2_complete :: bool
  seenOpeningLead :: bool
  amDummy :: bool
  reseating :: bool
  lastActionTime :: int
  actionTime :: "int list"
  auction :: "string list"
  play :: "string list"
  contract :: "string option"
  denom :: "string option"
  declarer :: "int option"
  tricks :: "trick_obj list option"
  trick :: "trick_obj option"

text \<open>
  A handler either returns or throws; in both cases the state it has mutated so
  far is what the next event sees.
\<close>

datatype outcome = Returned app | Threw js_error app

fun state_of :: "outcome \<Rightarrow> app" where
  "state_of (Returned s) = s"
| "state_of (Threw e s) = s"

section \<open>Contract resolution: \<open>auctionContract\<close>\<close>

definition seatorder :: string where
  "seatorder = ''swne''"

text \<open>The guard at the head of \<open>auctionContract\<close> (the incomplete-auction test).\<close>

definition auction_incomplete :: "string list \<Rightarrow> bool" where
  "auction_incomplete au =
     (let ncalls = length au in
      ncalls < 4 \<or> au ! (ncalls - 1) \<noteq> ''p'' \<or> au ! (ncalls - 2) \<noteq> ''p''
        \<or> au ! (ncalls - 3) \<noteq> ''p'')"

definition auction_complete :: "string list \<Rightarrow> bool" where
  "auction_complete au = (\<not> auction_incomplete au)"

text \<open>
  \<open>for (i1=ncalls-4; i1>= 0; i1--) { if (au[i1].length === 2) { break; } }\<close>
  started at \<open>i1\<close>; the value is \<open>i1\<close> after the loop.
\<close>

function scan_i1 :: "string list \<Rightarrow> int \<Rightarrow> int" where
  "scan_i1 au i1 =
     (if i1 \<ge> 0 then (if length (au ! nat i1) = 2 then i1 else scan_i1 au (i1 - 1))
      else i1)"
  by pat_completeness auto
termination
  by (relation "measure (\<lambda>(au, i1). nat (i1 + 1))") auto

text \<open>
  \<open>for (i2 = (i1 % 2); i2<ncalls-4; i2+=2) { if (au[i2].charAt(1) === app.deal.denom) { break; } }\<close>
  started at \<open>i2\<close>; reading \<open>charAt\<close> of an undefined element throws.
\<close>

function scan_i2 :: "string list \<Rightarrow> string option \<Rightarrow> int \<Rightarrow> js_error + int" where
  "scan_i2 au dn i2 =
     (if i2 < int (length au) - 4 then
        (case js_index au i2 of
           None \<Rightarrow> Inl TypeError
         | Some c \<Rightarrow> if Some (charAt c 1) = dn then Inr i2 else scan_i2 au dn (i2 + 2))
      else Inr i2)"
  by pat_completeness auto
termination
  by (relation "measure (\<lambda>(au, dn, i2). nat (int (length au) - 4 - i2))") auto

definition auctionContract :: "app \<Rightarrow> outcome" where
  "auctionContract s =
     (let au = auction s; ncalls = int (length au) in
      if auction_incomplete au then
        Returned (s\<lparr>contract := None, denom := None, declarer := None\<rparr>)
      else
        let i1 = scan_i1 au (ncalls - 4) in
        case js_index au i1 of
          None \<Rightarrow> Threw TypeError s
        | Some c \<Rightarrow>
            let s1 = (if length c = 2
                      then s\<lparr>contract := Some c, denom := Some (charAt c 1)\<rparr>
                      else s\<lparr>contract := Some ''Pass'', denom := None\<rparr>) in
            (case scan_i2 au (denom s1) (js_rem i1 2) of
               Inl e \<Rightarrow> Threw e s1
             | Inr i2 \<Rightarrow>
                 Returned
                   (s1\<lparr>declarer := Some (js_rem (indexOf seatorder (dealer s1) + i2) 4)\<rparr>)))"

section \<open>Card play: \<open>trickcard\<close>\<close>

definition rankorder :: string where
  "rankorder = ''23456789TJQKA''"

text \<open>
  The body of the winner loop for one index \<open>i\<close>, on the loop variables
  \<open>(bix, bestDenom, bestRank)\<close>. \<open>bestDenom\<close> is compared with and assigned from
  \<open>trump = app.deal.denom\<close>, which may be undefined, so it is kept as an option.
\<close>

definition best_step ::
  "string list \<Rightarrow> string option \<Rightarrow> nat \<times> string option \<times> int \<Rightarrow> nat
     \<Rightarrow> nat \<times> string option \<times> int" where
  "best_step cs trump b i =
     (case b of (bix, bestDenom, bestRank) \<Rightarrow>
        let dn = charAt (cs ! i) 0; rank = indexOf rankorder (charAt (cs ! i) 1) in
        if Some dn = bestDenom then
          (if rank > bestRank then (i, bestDenom, rank) else (bix, bestDenom, bestRank))
        else if Some dn = trump then (i, trump, rank)
        else (bix, bestDenom, bestRank))"

text \<open>The index \<open>bix\<close> of the best card of a four-card trick, after \<open>i = 1, 2, 3\<close>.\<close>

definition trick_winner :: "string list \<Rightarrow> string option \<Rightarrow> nat" where
  "trick_winner cs trump =
     fst (foldl (best_step cs trump)
            (0, Some (charAt (cs ! 0) 0), indexOf rankorder (charAt (cs ! 0) 1))
            [1, 2, 3])"

text \<open>
  The block of \<open>trickcard\<close> run when no opening lead has been seen: resolve the
  contract and, unless it is the pass-out sentinel, open the first trick with the
  seat after declarer as leader.
\<close>

definition opening_lead :: "app \<Rightarrow> outcome" where
  "opening_lead s =
     (case auctionContract s of
        Threw e s' \<Rightarrow> Threw e s'
      | Returned s' \<Rightarrow>
          if contract s' = Some ''Pass'' then Returned s'
          else Returned
            (s'\<lparr>seenOpeningLead := True, tricks := Some [],
               trick := Some \<lparr>leader = map_option (\<lambda>d. js_rem (d + 1) 4) (declarer s'),
                              cards = []\<rparr>\<rparr>))"

text \<open>
  The rest of \<open>trickcard\<close>: the card goes onto \<open>app.trick.cards\<close>; on the fourth
  card the trick is appended to \<open>app.deal.tricks\<close>, the winner is computed and a new
  empty trick is opened with the winner as leader.
\<close>

definition add_card :: "app \<Rightarrow> string \<Rightarrow> outcome" where
  "add_card s crd =
     (case trick s of
        None \<Rightarrow> Threw TypeError s
      | Some t \<Rightarrow>
          let t1 = t\<lparr>cards := cards t @ [crd]\<rparr>; s1 = s\<lparr>trick := Some t1\<rparr> in
          if length (cards t1) = 4 then
            (case tricks s1 of
               None \<Rightarrow> Threw TypeError s1
             | Some ts \<Rightarrow>
                 let bix = trick_winner (cards t1) (denom s1);
                     lix = map_option (\<lambda>l. js_rem (l + int bix) 4) (leader t1) in
                 Returned
                   (s1\<lparr>tricks := Some (ts @ [t1]),
                       trick := Some \<lparr>leader = lix, cards = []\<rparr>\<rparr>))
          else Returned s1)"

definition trickcard :: "app \<Rightarrow> string \<Rightarrow> int \<Rightarrow> outcome" where
  "trickcard s crd timeStamp =
     (let tdiff = (if blast1_complete s then timeStamp - lastActionTime s else 0);
          s1 = s\<lparr>play := play s @ [crd], actionTime := actionTime s @ [tdiff],
                 lastActionTime := timeStamp\<rparr> in
      case (if \<not> seenOpeningLead s1 then opening_lead s1 else Returned s1) of
        Threw e s2 \<Rightarrow> Threw e s2
      | Returned s2 \<Rightarrow> add_card s2 crd)"

section \<open>Rollback: \<open>undo\<close>\<close>

text \<open>
  The loop that rewinds \<open>app.trick\<close> and \<open>app.deal.tricks\<close> by \<open>cnt\<close> cards.
  \<open>pop()\<close> on an empty array yields \<open>undefined\<close>, on which the loop bails out.
\<close>

function rewind :: "app \<Rightarrow> nat \<Rightarrow> outcome" where
  "rewind s cnt =
     (if cnt > 0 then
        (case trick s of
           None \<Rightarrow> Threw TypeError s
         | Some t \<Rightarrow>
             if length (cards t) \<ge> cnt then
               Returned (s\<lparr>trick := Some (t\<lparr>cards := take (length (cards t) - cnt) (cards t)\<rparr>)\<rparr>)
             else
               (case tricks s of
                  None \<Rightarrow> Threw TypeError s
                | Some ts \<Rightarrow>
                    if ts = [] then Returned (s\<lparr>trick := None\<rparr>)
                    else rewind (s\<lparr>trick := Some (last ts), tricks := Some (butlast ts)\<rparr>)
                           (cnt - length (cards t))))
      else Returned s)"
  by pat_completeness auto
termination
  by (relation "measure (\<lambda>(s, cnt). case tricks s of None \<Rightarrow> 0 | Some ts \<Rightarrow> length ts)")
     auto

text \<open>
  The part of \<open>undo\<close> after \<open>undoCount\<close> has been fixed: the guard against a
  rollback past the start of the deal, then the rewinding of the timing, play and
  auction arrays and of the tricks. Assigning a smaller \<open>length\<close> to an array
  truncates it; a negative length raises a RangeError.
\<close>

definition undo_apply :: "app \<Rightarrow> nat \<Rightarrow> int \<Rightarrow> outcome" where
  "undo_apply s undoCount timeStamp =
     (if undoCount > length (actionTime s) then Returned s
      else
        let s1 = s\<lparr>lastActionTime := timeStamp,
                   actionTime := take (length (actionTime s) - undoCount) (actionTime s)\<rparr> in
        if length (play s1) \<ge> undoCount then
          (let s2 = s1\<lparr>play := take (length (play s1) - undoCount) (play s1)\<rparr> in
           if seenOpeningLead s2 then rewind s2 undoCount else Returned s2)
        else
          (let s2 = s1\<lparr>seenOpeningLead := False\<rparr>;
               undoAuctionCount = undoCount - length (play s2);
               s3 = s2\<lparr>play := []\<rparr> in
           if length (auction s3) < undoAuctionCount then Threw RangeError s3
           else
             let s4 = s3\<lparr>auction := take (length (auction s3) - undoAuctionCount) (auction s3),
                        amDummy := False\<rparr> in
             if seenOpeningLead s4 then rewind s4 undoCount else Returned s4))"

text \<open>
  \<open>undo\<close> on the parsed attributes of \<open><sc_undo>\<close>: \<open>count\<close> (digits, so a
  natural number) and \<open>position\<close> (\<open>None\<close> when the attribute does not match).
  A count of 0 at position \<open>*\<close> rolls one action back.
\<close>

definition undo :: "app \<Rightarrow> nat \<Rightarrow> string option \<Rightarrow> int \<Rightarrow> outcome" where
  "undo s count position timeStamp =
     undo_apply s (if count = 0 \<and> position = Some ''*'' then 1 else count) timeStamp"

section \<open>The event handlers of \<open>processWebsocket\<close>\<close>

text \<open>
  \<open><sc_deal>\<close> for a new board: \<open>app.deal\<close> is replaced by a fresh object, so every
  field not assigned is undefined; the global \<open>app.trick\<close> is not touched.
\<close>

definition new_deal :: "app \<Rightarrow> string \<Rightarrow> int \<Rightarrow> app" where
  "new_deal s d timeStamp =
     \<lparr>dealer = d, blast1_complete = False, blast2_complete = False,
      seenOpeningLead = False, amDummy = False, reseating = False,
      lastActionTime = timeStamp, actionTime = [], auction = [], play = [],
      contract = None, denom = None, declarer = None, tricks = None, trick = trick s\<rparr>"

text \<open>\<open><sc_call_made>\<close>: ignored while the player is dummy or being reseated.\<close>

definition call_made :: "app \<Rightarrow> string \<Rightarrow> int \<Rightarrow> app" where
  "call_made s call timeStamp =
     (if amDummy s \<or> reseating s then s
      else
        let tdiff = (if blast1_complete s then timeStamp - lastActionTime s else 0) in
        s\<lparr>auction := auction s @ [call], actionTime := actionTime s @ [tdiff],
          lastActionTime := timeStamp\<rparr>)"

text \<open>\<open>cs_make_bid\<close>: the user's own call, already normalised to lower case.\<close>

definition make_bid :: "app \<Rightarrow> string \<Rightarrow> int \<Rightarrow> app" where
  "make_bid s lowercall timeStamp =
     (let tdiff = timeStamp - lastActionTime s in
      s\<lparr>auction := auction s @ [lowercall], actionTime := actionTime s @ [tdiff],
        lastActionTime := timeStamp\<rparr>)"

text \<open>
  \<open><sc_card_played>\<close>. The message is skipped while the player is dummy until the
  second deal blast is complete. The card is taken from the message with the
  pattern \<open>[CDHS][2-9TJQKA]\<close>; where the pattern does not match, indexing the
  null match throws before anything is written.
\<close>

definition valid_card :: "string \<Rightarrow> bool" where
  "valid_card c =
     (length c = 2 \<and> c ! 0 \<in> set ''CDHS'' \<and> c ! 1 \<in> set ''23456789TJQKA'')"

text \<open>
  Before it calls \<open>trickcard\<close>, the handler works out who plays the card: from
  \<open>app.trick\<close> once the opening lead has been seen, and otherwise from
  \<open>app.deal.declarer\<close> as the seat after declarer. \<open>None\<close> stands for \<open>undefined\<close>
  (an index that is \<open>NaN\<close> or out of range).
\<close>

definition seats :: "string list" where
  "seats = [''S'', ''W'', ''N'', ''E'']"

definition card_played_player :: "app \<Rightarrow> string option" where
  "card_played_player s =
     (if trick s \<noteq> None \<and> seenOpeningLead s then
        (case trick s of
           None \<Rightarrow> None
         | Some t \<Rightarrow>
             (case leader t of
                None \<Rightarrow> None
              | Some l \<Rightarrow> js_index seats (js_rem (l + int (length (cards t))) 4)))
      else
        (case declarer s of
           Some d \<Rightarrow> js_index seats (js_rem (d + 1) 4)
         | None \<Rightarrow> Some ''?''))"

text \<open>The \<open>card_played\<close> event the handler sends to the bot after \<open>trickcard\<close>.\<close>

record card_event =
  ev_card :: string
  ev_player :: "string option"
  ev_played_count :: nat

definition card_played :: "app \<Rightarrow> string \<Rightarrow> int \<Rightarrow> outcome \<times> card_event option" where
  "card_played s crd timeStamp =
     (if \<not> amDummy s \<or> blast2_complete s then
        (if \<not> valid_card crd then (Threw TypeError s, None)
         else
           let played_count = length (play s);
               player = card_played_player s in
           case trickcard s crd timeStamp of
             Threw e s' \<Rightarrow> (Threw e s', None)
           | Returned s' \<Rightarrow>
               (Returned s',
                Some \<lparr>ev_card = crd, ev_player = player, ev_played_count = played_count\<rparr>))
      else (Returned s, None))"

text \<open>\<open><sc_deal>\<close> for the board in progress: the player has become dummy.\<close>

definition become_dummy :: "app \<Rightarrow> app" where
  "become_dummy s = (if reseating s then s else s\<lparr>amDummy := True\<rparr>)"

definition deal_blast_complete :: "app \<Rightarrow> app" where
  "deal_blast_complete s =
     (if reseating s then s
      else if \<not> blast1_complete s then s\<lparr>blast1_complete := True\<rparr>
      else s\<lparr>blast2_complete := True\<rparr>)"

datatype event =
    NewDeal string int
  | BecomeDummy
  | BlastComplete
  | CallMade string int
  | MakeBid string int
  | CardPlayed string int
  | PlayCard string int
  | Undo nat "string option" int

fun step :: "app \<Rightarrow> event \<Rightarrow> app" where
  "step s (NewDeal d ts) = new_deal s d ts"
| "step s BecomeDummy = become_dummy s"
| "step s BlastComplete = deal_blast_complete s"
| "step s (CallMade c ts) = call_made s c ts"
| "step s (MakeBid c ts) = make_bid s c ts"
| "step s (CardPlayed c ts) = state_of (fst (card_played s c ts))"
| "step s (PlayCard c ts) = state_of (trickcard s c ts)"
| "step s (Undo n pos ts) = state_of (undo s n pos ts)"

definition run :: "app \<Rightarrow> event list \<Rightarrow> app" where
  "run s evs = foldl step s evs"

declare scan_i1.simps [simp del] scan_i2.simps [simp del] rewind.simps [simp del]

section \<open>Notions used to state the properties\<close>

text \<open>
  The completion condition as the specification words it: at least four calls,
  the last three are Pass, and the call before them is not Pass or the auction is
  four passes.
\<close>

definition claimed_complete :: "string list \<Rightarrow> bool" where
  "claimed_complete au =
     (length au \<ge> 4 \<and> drop (length au - 3) au = [''p'', ''p'', ''p'']
      \<and> (au ! (length au - 4) \<noteq> ''p'' \<or> (list_all (\<lambda>c. c = ''p'') au \<and> length au = 4)))"

text \<open>
  A valid auction receives no call after it is over: no proper prefix of it already
  satisfies the completion condition of the specification.
\<close>

definition still_open :: "string list \<Rightarrow> bool" where
  "still_open au = list_all (\<lambda>n. \<not> claimed_complete (take n au)) [0..<length au]"

text \<open>The three arrays that record the actions of a deal, and their length invariant.\<close>

definition lists_of :: "app \<Rightarrow> int list \<times> string list \<times> string list" where
  "lists_of s = (actionTime s, auction s, play s)"

definition counted :: "app \<Rightarrow> bool" where
  "counted s = (length (actionTime s) = length (auction s) + length (play s))"

text \<open>
  A placeholder for the tracker before any deal has arrived; \<open>new_deal\<close> keeps
  nothing of it but \<open>app.trick\<close>.
\<close>

definition no_deal :: app where
  "no_deal = \<lparr>dealer = [], blast1_complete = False, blast2_complete = False,
      seenOpeningLead = False, amDummy = False, reseating = False,
      lastActionTime = 0, actionTime = [], auction = [], play = [],
      contract = None, denom = None, declarer = None, tricks = None, trick = None\<rparr>"

text \<open>
  Calls as the server sends them: \<open>p\<close>, \<open>d\<close>, \<open>r\<close>, or a level and a strain
  letter. Only a bid names a strain.
\<close>

definition valid_call :: "string \<Rightarrow> bool" where
  "valid_call c =
     (c = ''p'' \<or> c = ''d'' \<or> c = ''r''
      \<or> (length c = 2 \<and> c ! 0 \<in> set ''1234567'' \<and> c ! 1 \<in> set ''CDHSN''))"

definition strain_of :: "string \<Rightarrow> string option" where
  "strain_of c = (if length c = 2 then Some [c ! 1] else None)"

text \<open>
  The seat that makes the \<open>k\<close>-th call when the dealer has seat index \<open>d\<close>, and
  the partnership relation on seat indices (South and North are even, West and
  East odd).
\<close>

definition call_seat :: "int \<Rightarrow> nat \<Rightarrow> int" where
  "call_seat d k = (d + int k) mod 4"

definition same_side :: "int \<Rightarrow> int \<Rightarrow> bool" where
  "same_side a b = (a mod 2 = b mod 2)"

definition partner :: "int \<Rightarrow> int" where
  "partner seat = (seat + 2) mod 4"

text \<open>
  Modelled from the spec: the tracker stores no dummy seat (it only keeps the flag
  \<open>amDummy\<close> for the user); the specification defines Dummy as Declarer's partner.
\<close>

definition dummy_of :: "app \<Rightarrow> int option" where
  "dummy_of s = map_option partner (declarer s)"

text \<open>Suit and rank of a card as the winner loop reads them.\<close>

definition suit_of :: "string \<Rightarrow> string" where
  "suit_of c = charAt c 0"

definition rank_of :: "string \<Rightarrow> int" where
  "rank_of c = indexOf rankorder (charAt c 1)"

text \<open>
  The ranks of bridge, low to high: 2, 3, 4, 5, 6, 7, 8, 9, T, J, Q, K, A. The value
  of a rank is written out here and does not depend on the table the code uses.
\<close>

definition rank_value :: "char \<Rightarrow> nat" where
  "rank_value r =
     (if r = CHR ''2'' then 2 else if r = CHR ''3'' then 3 else if r = CHR ''4'' then 4
      else if r = CHR ''5'' then 5 else if r = CHR ''6'' then 6 else if r = CHR ''7'' then 7
      else if r = CHR ''8'' then 8 else if r = CHR ''9'' then 9 else if r = CHR ''T'' then 10
      else if r = CHR ''J'' then 11 else if r = CHR ''Q'' then 12 else if r = CHR ''K'' then 13
      else if r = CHR ''A'' then 14 else 0)"

definition card_rank :: "string \<Rightarrow> nat" where
  "card_rank c = rank_value (c ! 1)"

text \<open>
  The cards of a four-card trick that can win it: the trumps if any card is a
  trump, the cards of the suit led otherwise.
\<close>

definition eligible :: "string list \<Rightarrow> string option \<Rightarrow> nat \<Rightarrow> bool" where
  "eligible cs trump i =
     (if \<exists>j<4. Some (suit_of (cs ! j)) = trump then Some (suit_of (cs ! i)) = trump
      else suit_of (cs ! i) = suit_of (cs ! 0))"

text \<open>
  Scenario A: North deals, the auction is 1S, Pass, 2S, Pass, Pass, Pass.
  A trick with two ruffs: hearts are trumps and the trick so far is SA (led), H2, HK.
\<close>

definition scenario_A :: app where
  "scenario_A = run (new_deal no_deal ''n'' 0)
     [CallMade ''1S'' 10, CallMade ''p'' 20, CallMade ''2S'' 30, CallMade ''p'' 40,
      CallMade ''p'' 50, CallMade ''p'' 60]"

definition scenario_ruffs :: app where
  "scenario_ruffs = run (new_deal no_deal ''n'' 0)
     [CallMade ''1H'' 10, CallMade ''p'' 20, CallMade ''p'' 30, CallMade ''p'' 40,
      CardPlayed ''SA'' 50, CardPlayed ''H2'' 60, CardPlayed ''HK'' 70]"

text \<open>
  A deal that is rolled back into the auction and bid again: North deals and opens
  1H, all pass and East leads SA; an undo of two actions takes back the lead and
  the last pass; West then bids 1S and all pass.
\<close>

definition stale_deal :: app where
  "stale_deal = run (new_deal no_deal ''n'' 0)
     [CallMade ''1H'' 10, CallMade ''p'' 20, CallMade ''p'' 30, CallMade ''p'' 40,
      CardPlayed ''SA'' 50]"

definition stale_calls :: "event list" where
  "stale_calls = [CallMade ''1S'' 70, CallMade ''p'' 80, CallMade ''p'' 90, CallMade ''p'' 100]"

text \<open>
  The invariant of the winner loop once the cards at indices below \<open>n\<close> have been
  looked at.
\<close>

definition best_inv ::
  "string list \<Rightarrow> string option \<Rightarrow> nat \<Rightarrow> nat \<times> string option \<times> int \<Rightarrow> bool" where
  "best_inv cs trump n b =
     (case b of (bix, bestDenom, bestRank) \<Rightarrow>
        bix < n \<and> bestDenom = Some (suit_of (cs ! bix)) \<and> bestRank = rank_of (cs ! bix)
        \<and> ((\<exists>j<n. Some (suit_of (cs ! j)) = trump) \<longrightarrow> bestDenom = trump)
        \<and> (\<not> (\<exists>j<n. Some (suit_of (cs ! j)) = trump) \<longrightarrow> bestDenom = Some (suit_of (cs ! 0)))
        \<and> (\<forall>j<n. Some (suit_of (cs ! j)) = bestDenom \<longrightarrow> rank_of (cs ! j) \<le> bestRank)
        \<and> (\<forall>j<bix. Some (suit_of (cs ! j)) = bestDenom \<longrightarrow> rank_of (cs ! j) < bestRank))"

subsection \<open>Checks on a double-dummy result: \<open>showDoubleDummy\<close>\<close>

text \<open>
  The checks \<open>showDoubleDummy\<close> makes between reading the board number of the
  deal viewer and rendering the table. \<open>d.bnum\<close> and \<open>d.hand\<close> belong to the deal
  the analysis was computed for; \<open>bnum\<close> is parsed from the viewer and \<open>d2\<close> is the
  deal read back from the viewer (\<open>None\<close> where \<open>parseInt\<close> gives \<open>NaN\<close> or
  \<open>getDealViaDOM\<close> gives \<open>undefined\<close>). The function returns \<open>undefined\<close> to
  ask for another attempt (\<open>NoResponse\<close>), a message that ends the attempts, or
  goes on to render (\<open>Proceed\<close>).
\<close>

datatype dd_response =
    NoResponse
  | BoardNumberMismatch "int option" "int option"
  | DealsDoNotMatch
  | Proceed

text \<open>\<open>(d.bnum - bnum) % 16 !== 0\<close>, which is true when either number is \<open>NaN\<close>.\<close>

definition bnum_differs :: "int option \<Rightarrow> int option \<Rightarrow> bool" where
  "bnum_differs d_bnum bnum =
     (case (d_bnum, bnum) of
        (Some a, Some b) \<Rightarrow> js_rem (a - b) 16 \<noteq> 0
      | _ \<Rightarrow> True)"

text \<open>
  The loop over the four hands: a hand of the viewer is compared only when it is
  shown in full (13 cards and 3 dots); the value is \<open>dealsMatch\<close>.
\<close>

fun dealsMatch :: "string list \<Rightarrow> string list \<Rightarrow> nat list \<Rightarrow> js_error + bool" where
  "dealsMatch d_hand d2_hand [] = Inr True"
| "dealsMatch d_hand d2_hand (i # rest) =
     (case js_index d2_hand (int i) of
        None \<Rightarrow> Inl TypeError
      | Some h2 \<Rightarrow>
          if length h2 = 16 \<and> js_index d_hand (int i) \<noteq> Some h2 then Inr False
          else dealsMatch d_hand d2_hand rest)"

definition showDoubleDummy_checks ::
  "int option \<Rightarrow> string list \<Rightarrow> int option \<Rightarrow> string list option \<Rightarrow> js_error + dd_response" where
  "showDoubleDummy_checks d_bnum d_hand bnum d2 =
     (if bnum_differs d_bnum bnum then
        (if bnum = Some 99 then Inr NoResponse else Inr (BoardNumberMismatch d_bnum bnum))
      else
        (case d2 of
           None \<Rightarrow> Inl TypeError
         | Some d2_hand \<Rightarrow>
             (case dealsMatch d_hand d2_hand [0, 1, 2, 3] of
                Inl e \<Rightarrow> Inl e
              | Inr m \<Rightarrow> if \<not> m then Inr DealsDoNotMatch else Inr Proceed)))"

subsection \<open>The recommendation engine\<close>

text \<open>
  Modelled from the spec: the recommendation engine (\<open>recommend\<close>, section 4.5) is
  not among the sources; cards, strains, the deal snapshot and the double-dummy
  table follow the specification's data model. A fingerprint is a board number
  with the hand composition; a rationale is the strain and the trick estimate it
  is built from.
\<close>

datatype suit = Clubs | Diamonds | Hearts | Spades

datatype strain = Trump suit | Notrump

type_synonym playing_card = "suit \<times> nat"

record dd_table =
  dd_fingerprint :: "nat \<times> playing_card list list"
  dd_tricks :: "nat \<Rightarrow> strain \<Rightarrow> nat"

record snapshot =
  snap_fingerprint :: "nat \<times> playing_card list list"
  snap_hands :: "nat \<Rightarrow> playing_card list"
  snap_strain :: strain
  snap_leader :: nat
  snap_cards :: "playing_card list"

datatype no_recommendation = Empty | StaleOrMissingAnalysis

text \<open>
  Modelled from the spec: the seat on play is \<open>trick.leader + trick.cards.length\<close>
  modulo 4.
\<close>

definition seat_on_play :: "snapshot \<Rightarrow> nat" where
  "seat_on_play d = (snap_leader d + length (snap_cards d)) mod 4"

text \<open>
  Modelled from the spec: if the in-progress trick is non-empty, the legal cards
  are those of the suit led if the seat holds any, otherwise the full hand.
\<close>

definition legal_cards :: "snapshot \<Rightarrow> playing_card list" where
  "legal_cards d =
     (let hand = snap_hands d (seat_on_play d) in
      case snap_cards d of
        [] \<Rightarrow> hand
      | led # _ \<Rightarrow>
          (let follow = filter (\<lambda>c. fst c = fst led) hand in
           if follow \<noteq> [] then follow else hand))"

text \<open>
  Modelled from the spec: the card with the maximum estimate is selected, ties
  broken by the longest remaining suit and then the highest rank; the estimate
  is a table lookup for the seat and the contract's strain.
\<close>

definition suit_length :: "playing_card list \<Rightarrow> suit \<Rightarrow> nat" where
  "suit_length hand st = length (filter (\<lambda>c. fst c = st) hand)"

definition preferred :: "nat \<times> nat \<times> nat \<Rightarrow> nat \<times> nat \<times> nat \<Rightarrow> bool" where
  "preferred k1 k2 =
     (case (k1, k2) of
        ((e1, l1, r1), (e2, l2, r2)) \<Rightarrow>
          e1 < e2 \<or> (e1 = e2 \<and> (l1 < l2 \<or> (l1 = l2 \<and> r1 < r2))))"

fun select_card :: "(playing_card \<Rightarrow> nat \<times> nat \<times> nat) \<Rightarrow> playing_card \<Rightarrow> playing_card list \<Rightarrow> playing_card" where
  "select_card key best [] = best"
| "select_card key best (c # rest) =
     select_card key (if preferred (key best) (key c) then c else best) rest"

text \<open>
  Modelled from the spec: \<open>recommend\<close> fails with \<open>Empty\<close> on an empty legal set
  and with \<open>StaleOrMissingAnalysis\<close> when there is no table or its fingerprint is
  not the deal's.
\<close>

definition recommend ::
  "snapshot \<Rightarrow> dd_table option \<Rightarrow> no_recommendation + playing_card \<times> (strain \<times> nat)" where
  "recommend d dd =
     (case legal_cards d of
        [] \<Rightarrow> Inl Empty
      | c0 # rest \<Rightarrow>
          (case dd of
             None \<Rightarrow> Inl StaleOrMissingAnalysis
           | Some t \<Rightarrow>
               if dd_fingerprint t \<noteq> snap_fingerprint d then Inl StaleOrMissingAnalysis
               else
                 let hand = snap_hands d (seat_on_play d);
                     estimate = dd_tricks t (seat_on_play d) (snap_strain d);
                     key = (\<lambda>c. (estimate, suit_length hand (fst c), snd c)) in
                 Inr (select_card key c0 rest, (snap_strain d, estimate))))"

definition example_table :: dd_table where
  "example_table = \<lparr>dd_fingerprint = (7, [[(Spades, 14), (Hearts, 5), (Hearts, 9)]]),
                    dd_tricks = (\<lambda>seat st. 9)\<rparr>"

definition example_snapshot :: snapshot where
  "example_snapshot =
     \<lparr>snap_fingerprint = (7, [[(Spades, 14), (Hearts, 5), (Hearts, 9)]]),
      snap_hands = (\<lambda>seat. if seat = 1 then [(Spades, 14), (Hearts, 5), (Hearts, 9)] else []),
      snap_strain = Notrump, snap_leader = 0, snap_cards = [(Hearts, 2)]\<rparr>"

subsection \<open>Undo followed by replay\<close>


text \<open>Events that carry a call, and the call or card that an event carries.\<close>

fun is_call :: "event \<Rightarrow> bool" where
  "is_call (CallMade c ts) = True"
| "is_call (MakeBid c ts) = True"
| "is_call ev = False"







text \<open>
  \<open>trickcard\<close> first writes the play and timing arrays and then works on the rest of
  the state; \<open>set3\<close> is that first write and \<open>card_core\<close> the rest, which reads
  neither array. \<open>lift\<close> applies a state change under an outcome.
\<close>

definition set3 :: "int list \<Rightarrow> int \<Rightarrow> string list \<Rightarrow> app \<Rightarrow> app" where
  "set3 a l p s = s\<lparr>play := p, actionTime := a, lastActionTime := l\<rparr>"


text \<open>The three flags that the events recording nothing may set.\<close>

definition flags :: "bool \<Rightarrow> bool \<Rightarrow> bool \<Rightarrow> app \<Rightarrow> app" where
  "flags d b1 b2 s = s\<lparr>amDummy := d, blast1_complete := b1, blast2_complete := b2\<rparr>"




definition playing :: "app \<Rightarrow> bool" where
  "playing s =
     (seenOpeningLead s
      \<and> (case (trick s, tricks s) of
            (Some t, Some ts) \<Rightarrow> length (cards t) < 4
          | _ \<Rightarrow> False))"








section \<open>Auction completion and the pass-out\<close>

lemma length_three: "length xs = 3 \<Longrightarrow> \<exists>a b c. xs = [a, b, c]"
  by (auto simp: length_Suc_conv numeral_3_eq_3)

lemma last_three:
  assumes "length au \<ge> 3"
  shows "drop (length au - 3) au
           = [au ! (length au - 3), au ! (length au - 2), au ! (length au - 1)]"
proof -
  have "length (drop (length au - 3) au) = 3" using assms by simp
  then obtain a b c where e: "drop (length au - 3) au = [a, b, c]"
    using length_three by blast
  have n: "length au - 3 \<le> length au" by simp
  have "[a, b, c] ! 0 = au ! (length au - 3 + 0)"
    using nth_drop[OF n, where i = 0] by (simp only: e)
  then have "a = au ! (length au - 3)" by simp
  moreover have "[a, b, c] ! 1 = au ! (length au - 3 + 1)"
    using nth_drop[OF n, where i = 1] by (simp only: e)
  then have "b = au ! (length au - 2)"
    using assms by (simp add: numeral_3_eq_3 numeral_2_eq_2 Suc_diff_Suc)
  moreover have "[a, b, c] ! 2 = au ! (length au - 3 + 2)"
    using nth_drop[OF n, where i = 2] by (simp only: e)
  then have "c = au ! (length au - 1)"
    using assms by (simp add: numeral_3_eq_3 numeral_2_eq_2 Suc_diff_Suc)
  ultimately show ?thesis using e by simp
qed

lemma auction_complete_iff:
  "auction_complete au \<longleftrightarrow> 4 \<le> length au \<and> drop (length au - 3) au = [''p'', ''p'', ''p'']"
  using last_three[of au]
  by (auto simp: auction_complete_def auction_incomplete_def Let_def)

lemma still_openD: "still_open au \<Longrightarrow> n < length au \<Longrightarrow> \<not> claimed_complete (take n au)"
  by (simp add: still_open_def list_all_iff)

lemma claimed_complete_nth:
  "claimed_complete au \<longleftrightarrow>
     4 \<le> length au \<and> au ! (length au - 3) = ''p'' \<and> au ! (length au - 2) = ''p''
     \<and> au ! (length au - 1) = ''p''
     \<and> (au ! (length au - 4) \<noteq> ''p'' \<or> (list_all (\<lambda>c. c = ''p'') au \<and> length au = 4))"
proof (cases "4 \<le> length au")
  case True
  then have "3 \<le> length au" by simp
  then show ?thesis using last_three[of au] by (auto simp: claimed_complete_def)
next
  case False
  then show ?thesis by (simp add: claimed_complete_def)
qed

lemma prefix_ends:
  assumes "still_open au" and "m + 4 < length au"
    and "au ! (m + 1) = ''p''" and "au ! (m + 2) = ''p''" and "au ! (m + 3) = ''p''"
  shows "au ! m = ''p''"
proof (rule ccontr)
  assume ne: "au ! m \<noteq> ''p''"
  have l: "length (take (m + 4) au) = m + 4" using assms(2) by simp
  have n: "\<And>i. i < m + 4 \<Longrightarrow> take (m + 4) au ! i = au ! i" by simp
  have "claimed_complete (take (m + 4) au)"
    unfolding claimed_complete_nth l using assms(3,4,5) ne n by (simp add: add.commute)
  then show False using still_openD[OF assms(1), of "m + 4"] assms(2) by simp
qed

lemma all_pass_below:
  assumes "still_open au" and "4 \<le> length au"
    and "au ! (length au - 4) = ''p''" and "au ! (length au - 3) = ''p''"
    and "au ! (length au - 2) = ''p''" and "au ! (length au - 1) = ''p''"
  shows "m < length au \<Longrightarrow> au ! m = ''p''"
proof (induction "length au - m" arbitrary: m rule: less_induct)
  case less
  show ?case
  proof (cases "m + 4 < length au")
    case False
    then have "m = length au - 4 \<or> m = length au - 3 \<or> m = length au - 2 \<or> m = length au - 1"
      using less.prems by arith
    then show ?thesis using assms(3-6) by auto
  next
    case True
    have 1: "au ! (m + 1) = ''p''" using less.hyps[of "m + 1"] True by simp
    have 2: "au ! (m + 2) = ''p''" using less.hyps[of "m + 2"] True by simp
    have 3: "au ! (m + 3) = ''p''" using less.hyps[of "m + 3"] True by simp
    show ?thesis by (rule prefix_ends[OF assms(1) True 1 2 3])
  qed
qed

text \<open>
  C2. On the pass-out auction of four passes the scan for the last bid ends at
  index \<open>-1\<close>, and reading \<open>au[-1].length\<close> throws a TypeError before the branch
  that would store the pass-out sentinel is reached; the state is not changed.
\<close>

theorem auctionContract_passout_throws:
  "auctionContract (s\<lparr>auction := [''p'', ''p'', ''p'', ''p'']\<rparr>)
     = Threw TypeError (s\<lparr>auction := [''p'', ''p'', ''p'', ''p'']\<rparr>)"
  by (simp add: auctionContract_def auction_incomplete_def js_index_def scan_i1.simps)

text \<open>
  C3. On every valid auction, one in which no call follows the end of the auction,
  the test that guards \<open>auctionContract\<close> holds if and only if the auction has at
  least four calls, the last three are Pass, and the call before them is not Pass
  or the auction is the pass-out of exactly four passes.
\<close>

theorem auction_complete_as_specified:
  assumes "still_open au"
  shows "auction_complete au \<longleftrightarrow> claimed_complete au"
proof
  assume "claimed_complete au"
  then show "auction_complete au" by (simp add: auction_complete_iff claimed_complete_def)
next
  assume c: "auction_complete au"
  then have n4: "4 \<le> length au"
    and l3: "au ! (length au - 3) = ''p''" "au ! (length au - 2) = ''p''"
            "au ! (length au - 1) = ''p''"
    by (auto simp: auction_complete_def auction_incomplete_def Let_def)
  show "claimed_complete au"
  proof (cases "au ! (length au - 4) = ''p''")
    case False
    then show ?thesis unfolding claimed_complete_nth using n4 l3 by simp
  next
    case True
    have allp: "\<And>m. m < length au \<Longrightarrow> au ! m = ''p''"
      by (rule all_pass_below[OF assms n4 True l3])
    then have la: "list_all (\<lambda>c. c = ''p'') au" by (simp add: list_all_length)
    have "length au = 4"
    proof (rule ccontr)
      assume "length au \<noteq> 4"
      then have lt: "4 < length au" using n4 by simp
      have l: "length (take 4 au) = 4" using n4 by simp
      have n: "\<And>i. i < 4 \<Longrightarrow> take 4 au ! i = ''p''" using allp lt by simp
      have "list_all (\<lambda>c. c = ''p'') (take 4 au)" using n l by (simp add: list_all_length)
      then have "claimed_complete (take 4 au)"
        unfolding claimed_complete_nth l using n by simp
      then show False using still_openD[OF assms lt] by simp
    qed
    then show ?thesis unfolding claimed_complete_nth using n4 l3 la by simp
  qed
qed

theorem auction_complete_as_specified_witness:
  "still_open [''1S'', ''p'', ''2S'', ''p'', ''p'', ''p'']
   \<and> auction_complete [''1S'', ''p'', ''2S'', ''p'', ''p'', ''p'']
   \<and> claimed_complete [''1S'', ''p'', ''2S'', ''p'', ''p'', ''p'']
   \<and> still_open [''p'', ''p'', ''p'', ''p'']
   \<and> auction_complete [''p'', ''p'', ''p'', ''p'']
   \<and> still_open [''1S'', ''p'', ''p'']
   \<and> \<not> auction_complete [''1S'', ''p'', ''p'']"
proof -
  have h: "still_open [''1S'', ''p'', ''2S'', ''p'', ''p'', ''p'']" by code_simp
  have a: "auction_complete [''1S'', ''p'', ''2S'', ''p'', ''p'', ''p'']" by code_simp
  have r: "still_open [''p'', ''p'', ''p'', ''p''] \<and> auction_complete [''p'', ''p'', ''p'', ''p'']
      \<and> still_open [''1S'', ''p'', ''p''] \<and> \<not> auction_complete [''1S'', ''p'', ''p'']"
    by code_simp
  show ?thesis using h a r auction_complete_as_specified[OF h] by blast
qed

section \<open>The action arrays stay in step\<close>

lemma lists_of_simps [simp]:
  "lists_of (s\<lparr>contract := a\<rparr>) = lists_of s"
  "lists_of (s\<lparr>denom := b\<rparr>) = lists_of s"
  "lists_of (s\<lparr>declarer := c\<rparr>) = lists_of s"
  "lists_of (s\<lparr>tricks := d\<rparr>) = lists_of s"
  "lists_of (s\<lparr>trick := e\<rparr>) = lists_of s"
  "lists_of (s\<lparr>seenOpeningLead := f\<rparr>) = lists_of s"
  "lists_of (s\<lparr>amDummy := g\<rparr>) = lists_of s"
  "lists_of (s\<lparr>lastActionTime := h\<rparr>) = lists_of s"
  "lists_of (s\<lparr>blast1_complete := i\<rparr>) = lists_of s"
  "lists_of (s\<lparr>blast2_complete := j\<rparr>) = lists_of s"
  by (simp_all add: lists_of_def)

lemma auctionContract_lists: "lists_of (state_of (auctionContract s)) = lists_of s"
  by (simp add: auctionContract_def Let_def split: option.splits sum.splits)

lemma opening_lead_lists: "lists_of (state_of (opening_lead s)) = lists_of s"
  using auctionContract_lists[of s]
  by (cases "auctionContract s") (simp_all add: opening_lead_def)

lemma add_card_lists: "lists_of (state_of (add_card s c)) = lists_of s"
  by (simp add: add_card_def Let_def split: option.splits)

lemma rewind_lists: "lists_of (state_of (rewind s n)) = lists_of s"
proof (induction s n rule: rewind.induct)
  case (1 s cnt)
  show ?case
    using 1 by (subst rewind.simps) (simp split: option.splits)
qed

lemma trickcard_lists:
  "lists_of (state_of (trickcard s c ts))
     = (actionTime s @ [if blast1_complete s then ts - lastActionTime s else 0],
        auction s, play s @ [c])"
proof -
  define s1 where "s1 = s\<lparr>play := play s @ [c],
      actionTime := actionTime s @ [if blast1_complete s then ts - lastActionTime s else 0],
      lastActionTime := ts\<rparr>"
  define o1 where "o1 = (if \<not> seenOpeningLead s1 then opening_lead s1 else Returned s1)"
  have l1: "lists_of (state_of o1) = lists_of s1"
    by (simp add: o1_def opening_lead_lists)
  have "trickcard s c ts
          = (case o1 of Threw e s2 \<Rightarrow> Threw e s2 | Returned s2 \<Rightarrow> add_card s2 c)"
    by (simp add: trickcard_def Let_def o1_def s1_def)
  then have "lists_of (state_of (trickcard s c ts)) = lists_of s1"
    using l1 by (cases o1) (simp_all add: add_card_lists)
  then show ?thesis by (simp add: s1_def lists_of_def)
qed

lemma undo_apply_lists:
  assumes "counted s" and "n \<le> length (actionTime s)"
  shows "lists_of (state_of (undo_apply s n ts))
           = (take (length (actionTime s) - n) (actionTime s),
              take (length (auction s) - (n - length (play s))) (auction s),
              take (length (play s) - n) (play s))"
  using assms
  by (simp add: undo_apply_def Let_def rewind_lists) (auto simp: counted_def lists_of_def)

lemma undo_apply_rejects:
  "n > length (actionTime s) \<Longrightarrow> undo_apply s n ts = Returned s"
  by (simp add: undo_apply_def)

lemma trickcard_counted: "counted s \<Longrightarrow> counted (state_of (trickcard s c ts))"
  using trickcard_lists[of s c ts] by (simp add: counted_def lists_of_def)

lemma undo_apply_counted: "counted s \<Longrightarrow> counted (state_of (undo_apply s n ts))"
proof (cases "n \<le> length (actionTime s)")
  case True
  assume "counted s"
  then show ?thesis
    using undo_apply_lists[of s n ts] True by (auto simp: counted_def lists_of_def)
next
  case False
  assume "counted s"
  then show ?thesis using False by (simp add: undo_apply_rejects)
qed

lemma card_played_state:
  "state_of (fst (card_played s c ts))
     = (if (\<not> amDummy s \<or> blast2_complete s) \<and> valid_card c
        then state_of (trickcard s c ts) else s)"
  by (cases "trickcard s c ts") (simp_all add: card_played_def Let_def)

lemma step_counted: "counted s \<Longrightarrow> counted (step s ev)"
  by (cases ev)
    (simp_all add: trickcard_counted undo_apply_counted undo_def card_played_state,
     simp_all add: counted_def new_deal_def become_dummy_def deal_blast_complete_def
       call_made_def make_bid_def Let_def)

lemma run_counted: "counted s \<Longrightarrow> counted (run s evs)"
  unfolding run_def by (induction evs arbitrary: s) (simp_all add: step_counted)

lemma new_deal_counted: "counted (new_deal s d ts)"
  by (simp add: counted_def new_deal_def)

lemma reachable_counted: "counted (run (new_deal s0 d t0) evs)"
  by (rule run_counted[OF new_deal_counted])



section \<open>Undo beyond the start of the deal\<close>

text \<open>
  C5. In a state reached from a new deal, an undo whose count exceeds the number
  of calls plus the number of cards played returns at the guard, and the state is
  exactly what it was.
\<close>

theorem undo_exceeding_rejected:
  "let s = run (new_deal s0 d t0) evs in
     n > length (auction s) + length (play s) \<longrightarrow> undo s n pos ts = Returned s"
  using reachable_counted[of s0 d t0 evs]
  by (simp add: Let_def undo_def undo_apply_def counted_def)

text \<open>Scenario E: two calls and one card play, then an undo of five actions.\<close>

theorem undo_exceeding_rejected_witness:
  "(let s = run (new_deal no_deal ''n'' 0) [CallMade ''1S'' 10, CallMade ''p'' 20, CardPlayed ''SA'' 30] in
      length (auction s) = 2 \<and> length (play s) = 1
      \<and> 5 > length (auction s) + length (play s)
      \<and> undo s 5 (Some ''e'') 40 = Returned s)"
proof -
  define s where
    "s = run (new_deal no_deal ''n'' 0) [CallMade ''1S'' 10, CallMade ''p'' 20, CardPlayed ''SA'' 30]"
  have h: "length (auction s) = 2 \<and> length (play s) = 1"
    unfolding s_def by code_simp
  show ?thesis
    using h
      undo_exceeding_rejected [of no_deal "''n''" 0
        "[CallMade ''1S'' 10, CallMade ''p'' 20, CardPlayed ''SA'' 30]" 5 "Some ''e''" 40]
    unfolding s_def[symmetric] Let_def by simp
qed

section \<open>Declarer and opening leader\<close>

lemma scan_i1_spec:
  "- 1 \<le> k \<Longrightarrow>
     - 1 \<le> scan_i1 au k \<and> scan_i1 au k \<le> k
     \<and> (0 \<le> scan_i1 au k \<longrightarrow> length (au ! nat (scan_i1 au k)) = 2)
     \<and> (\<forall>j. scan_i1 au k < j \<and> j \<le> k \<longrightarrow> length (au ! nat j) \<noteq> 2)"
proof (induction au k rule: scan_i1.induct)
  case (1 au i1)
  show ?case
  proof (cases "i1 \<ge> 0 \<and> length (au ! nat i1) \<noteq> 2")
    case True
    then have e: "scan_i1 au i1 = scan_i1 au (i1 - 1)" by (subst scan_i1.simps) simp
    have ih: "- 1 \<le> scan_i1 au (i1 - 1) \<and> scan_i1 au (i1 - 1) \<le> i1 - 1
     \<and> (0 \<le> scan_i1 au (i1 - 1) \<longrightarrow> length (au ! nat (scan_i1 au (i1 - 1))) = 2)
     \<and> (\<forall>j. scan_i1 au (i1 - 1) < j \<and> j \<le> i1 - 1 \<longrightarrow> length (au ! nat j) \<noteq> 2)"
      using 1 True by simp
    have "\<And>j. scan_i1 au (i1 - 1) < j \<and> j \<le> i1 \<Longrightarrow> length (au ! nat j) \<noteq> 2"
    proof -
      fix j assume "scan_i1 au (i1 - 1) < j \<and> j \<le> i1"
      then have "j = i1 \<or> (scan_i1 au (i1 - 1) < j \<and> j \<le> i1 - 1)" by arith
      then show "length (au ! nat j) \<noteq> 2" using ih True by blast
    qed
    then show ?thesis unfolding e using ih by auto
  next
    case False
    then have e: "scan_i1 au i1 = i1" by (subst scan_i1.simps) auto
    show ?thesis unfolding e using False 1(2) by auto
  qed
qed

lemma js_index_in: "0 \<le> i \<Longrightarrow> i < int (length xs) \<Longrightarrow> js_index xs i = Some (xs ! nat i)"
  by (simp add: js_index_def)

lemma even_step:
  fixes j i :: int
  assumes "i \<le> j" and "even (j - i)"
  shows "j = i \<or> (i + 2 \<le> j \<and> even (j - (i + 2)))"
proof (cases "j = i")
  case True
  then show ?thesis by simp
next
  case False
  then have "j = i + 1 \<or> i + 2 \<le> j" using assms(1) by arith
  then show ?thesis
  proof
    assume "j = i + 1"
    then show ?thesis using assms(2) by simp
  next
    assume h: "i + 2 \<le> j"
    have "j - (i + 2) = (j - i) - 2" by simp
    then have "even (j - (i + 2))" using assms(2) by simp
    then show ?thesis using h by simp
  qed
qed

lemma scan_i2_spec:
  "0 \<le> i \<Longrightarrow>
   \<exists>r. scan_i2 au dn i = Inr r \<and> i \<le> r \<and> even (r - i)
     \<and> (\<forall>j. i \<le> j \<and> j < r \<and> even (j - i) \<longrightarrow> Some (charAt (au ! nat j) 1) \<noteq> dn)
     \<and> (r < int (length au) - 4 \<longrightarrow> Some (charAt (au ! nat r) 1) = dn)"
proof (induction au dn i rule: scan_i2.induct)
  case (1 au dn i2)
  have none: "\<forall>j. \<not> (i2 \<le> j \<and> j < i2 \<and> even (j - i2))" by simp
  have zero: "i2 \<le> i2 \<and> even (i2 - i2)" by simp
  show ?case
  proof (cases "i2 < int (length au) - 4")
    case False
    then have "scan_i2 au dn i2 = Inr i2" by (subst scan_i2.simps) simp
    then show ?thesis using False none zero by blast
  next
    case True
    then have ix: "js_index au i2 = Some (au ! nat i2)" using 1(2) by (simp add: js_index_in)
    show ?thesis
    proof (cases "Some (charAt (au ! nat i2) 1) = dn")
      case True
      then have "scan_i2 au dn i2 = Inr i2"
        using ix \<open>i2 < int (length au) - 4\<close> by (subst scan_i2.simps) simp
      then show ?thesis using True none zero by blast
    next
      case False
      then have e: "scan_i2 au dn i2 = scan_i2 au dn (i2 + 2)"
        using ix True by (subst scan_i2.simps) simp
      have p: "0 \<le> i2 + 2" using 1(2) by simp
      obtain r where r: "scan_i2 au dn (i2 + 2) = Inr r" "i2 + 2 \<le> r" "even (r - (i2 + 2))"
        "\<forall>j. i2 + 2 \<le> j \<and> j < r \<and> even (j - (i2 + 2)) \<longrightarrow> Some (charAt (au ! nat j) 1) \<noteq> dn"
        "r < int (length au) - 4 \<longrightarrow> Some (charAt (au ! nat r) 1) = dn"
        using 1(1)[OF True ix False p] by blast
      have a: "\<forall>j. i2 \<le> j \<and> j < r \<and> even (j - i2) \<longrightarrow> Some (charAt (au ! nat j) 1) \<noteq> dn"
      proof (intro allI impI)
        fix j assume h: "i2 \<le> j \<and> j < r \<and> even (j - i2)"
        then have "j = i2 \<or> (i2 + 2 \<le> j \<and> even (j - (i2 + 2)))" using even_step by blast
        then show "Some (charAt (au ! nat j) 1) \<noteq> dn" using False r(4) h by blast
      qed
      have "r - i2 = (r - (i2 + 2)) + 2" by simp
      then have b: "even (r - i2)" using r(3) by simp
      have c: "i2 \<le> r" using r(2) by simp
      show ?thesis unfolding e using r(1) r(5) a b c by blast
    qed
  qed
qed

lemma js_rem_nonneg: "0 \<le> a \<Longrightarrow> 0 < b \<Longrightarrow> js_rem a b = a mod b"
  by (cases "a = 0") (simp_all add: js_rem_def)

lemma valid_call_charAt:
  "valid_call c \<Longrightarrow> length b = 2 \<Longrightarrow>
     (Some (charAt c 1) = Some (charAt b 1)) = (strain_of c = strain_of b)"
  by (auto simp: valid_call_def charAt_def strain_of_def)

lemma valid_call_strain: "valid_call c \<Longrightarrow> (strain_of c \<noteq> None) = (length c = 2)"
  by (simp add: strain_of_def)

lemma dealer_index:
  "dl \<in> {''s'', ''w'', ''n'', ''e''} \<Longrightarrow> 0 \<le> indexOf seatorder dl \<and> indexOf seatorder dl < 4"
  by (auto simp: indexOf_def seatorder_def)

lemma mod4_mod2: "(a::int) mod 4 mod 2 = a mod 2"
  by (rule mod_mod_cancel) simp

lemma same_parity: "((d + int k) mod 2 = (d + int i) mod 2) = (k mod 2 = i mod 2)"
proof -
  have a: "(d + int k) mod 2 = (d + int i) mod 2 \<longleftrightarrow> even (d + int k) = even (d + int i)"
    by (simp add: mod2_eq_if)
  have b: "k mod 2 = i mod 2 \<longleftrightarrow> even k = even i"
    by (simp add: mod2_eq_if)
  show ?thesis unfolding a b by auto
qed

lemma same_side_call_seat: "same_side (call_seat d k) (call_seat d i) = (k mod 2 = i mod 2)"
  unfolding same_side_def call_seat_def mod4_mod2 by (rule same_parity)

lemma even_sub_mod2: "even ((a::int) - a mod 2)"
  by (simp add: minus_mod_eq_mult_div)

lemma parity_diff: "even (int a - int b mod 2) = (a mod 2 = b mod 2)"
proof -
  have "even (int a - int b mod 2) = (even (int a) = even (int b mod 2))" by simp
  also have "\<dots> = (even a = even b)" by (simp add: even_mod_2_iff)
  also have "\<dots> = (a mod 2 = b mod 2)" by (simp add: mod2_eq_if)
  finally show ?thesis .
qed

lemma mod2_le:
  assumes "k mod 2 = m mod (2::nat)"
  shows "int m mod 2 \<le> int k"
proof (cases "k = 0")
  case True
  then have "m mod 2 = 0" using assms by simp
  moreover have "int m mod 2 = int (m mod 2)" by (simp add: zmod_int)
  ultimately have "int m mod 2 = 0" by simp
  then show ?thesis by simp
next
  case False
  have "int m mod 2 < 2" by simp
  then show ?thesis using False by arith
qed

lemma resolve:
  assumes comp: "auction_complete au"
    and valid: "\<forall>c\<in>set au. valid_call c"
    and bid: "\<exists>c\<in>set au. strain_of c \<noteq> None"
    and dl: "dl \<in> {''s'', ''w'', ''n'', ''e''}"
  shows "\<exists>i1 i2. i1 < length au \<and> strain_of (au ! i1) \<noteq> None
      \<and> (\<forall>k<length au. i1 < k \<longrightarrow> strain_of (au ! k) = None)
      \<and> i2 \<le> i1 \<and> i2 mod 2 = i1 mod 2 \<and> strain_of (au ! i2) = strain_of (au ! i1)
      \<and> (\<forall>k<i2. k mod 2 = i1 mod 2 \<longrightarrow> strain_of (au ! k) \<noteq> strain_of (au ! i1))
      \<and> (\<forall>s. auction s = au \<and> dealer s = dl \<longrightarrow>
            auctionContract s = Returned (s\<lparr>contract := Some (au ! i1),
              denom := strain_of (au ! i1),
              declarer := Some (call_seat (indexOf seatorder dl) i2)\<rparr>))"
proof -
  let ?n = "int (length au)"
  have n4: "4 \<le> length au" and l3: "drop (length au - 3) au = [''p'', ''p'', ''p'']"
    using comp by (simp_all add: auction_complete_iff)
  have lastp: "\<And>k. k < length au \<Longrightarrow> length au - 3 \<le> k \<Longrightarrow> au ! k = ''p''"
  proof -
    fix k assume k: "k < length au" "length au - 3 \<le> k"
    have "drop (length au - 3) au ! (k - (length au - 3)) = au ! (length au - 3 + (k - (length au - 3)))"
      by (rule nth_drop) simp
    moreover have "k - (length au - 3) < 3" using k n4 by arith
    then have "[''p'', ''p'', ''p''] ! (k - (length au - 3)) = ''p''"
      by (auto simp: nth_Cons' )
    ultimately show "au ! k = ''p''" using k l3 by simp
  qed
  define i1 where "i1 = scan_i1 au (?n - 4)"
  have sp: "- 1 \<le> i1 \<and> i1 \<le> ?n - 4
     \<and> (0 \<le> i1 \<longrightarrow> length (au ! nat i1) = 2)
     \<and> (\<forall>j. i1 < j \<and> j \<le> ?n - 4 \<longrightarrow> length (au ! nat j) \<noteq> 2)"
    unfolding i1_def using scan_i1_spec[of "?n - 4" au] n4 by simp
  obtain kb where kb: "kb < length au" "length (au ! kb) = 2"
    using bid by (auto simp: in_set_conv_nth strain_of_def split: if_splits)
  have "kb < length au - 3"
  proof (rule ccontr)
    assume "\<not> kb < length au - 3"
    then have "au ! kb = ''p''" using lastp kb(1) by simp
    then show False using kb(2) by simp
  qed
  then have kb4: "int kb \<le> ?n - 4" by arith
  have i1pos: "i1 \<ge> 0"
  proof (rule ccontr)
    assume "\<not> 0 \<le> i1"
    then have "i1 < int kb \<and> int kb \<le> ?n - 4" using kb4 by simp
    then have "length (au ! nat (int kb)) \<noteq> 2" using sp by blast
    then show False using kb(2) by simp
  qed
  define m where "m = nat i1"
  have m: "i1 = int m" "m < length au" "int m \<le> ?n - 4" "length (au ! m) = 2"
    using i1pos sp n4 by (auto simp: m_def)
  have after: "\<forall>k<length au. m < k \<longrightarrow> strain_of (au ! k) = None"
  proof (intro allI impI)
    fix k assume k: "k < length au" "m < k"
    show "strain_of (au ! k) = None"
    proof (cases "int k \<le> ?n - 4")
      case True
      then have "i1 < int k \<and> int k \<le> ?n - 4" using k(2) m(1) by simp
      then have "length (au ! nat (int k)) \<noteq> 2" using sp by blast
      then show ?thesis by (simp add: strain_of_def)
    next
      case False
      then have "au ! k = ''p''" using lastp k(1) by simp
      then show ?thesis by (simp add: strain_of_def)
    qed
  qed
  have dn: "Some (charAt (au ! m) 1) = strain_of (au ! m)"
    using m(4) by (simp add: charAt_def strain_of_def)
  have start: "js_rem i1 2 = i1 mod 2" "0 \<le> i1 mod 2"
    using i1pos by (simp_all add: js_rem_nonneg)
  obtain r where r: "scan_i2 au (strain_of (au ! m)) (i1 mod 2) = Inr r" "i1 mod 2 \<le> r"
      "even (r - i1 mod 2)"
      "\<forall>j. i1 mod 2 \<le> j \<and> j < r \<and> even (j - i1 mod 2)
          \<longrightarrow> Some (charAt (au ! nat j) 1) \<noteq> strain_of (au ! m)"
      "r < ?n - 4 \<longrightarrow> Some (charAt (au ! nat r) 1) = strain_of (au ! m)"
    using scan_i2_spec[OF start(2), of au "strain_of (au ! m)"] by blast
  have rle: "r \<le> i1"
  proof (rule ccontr)
    assume "\<not> r \<le> i1"
    moreover have "i1 mod 2 \<le> i1" using i1pos by (simp add: zmod_le_nonneg_dividend)
    ultimately have "i1 mod 2 \<le> i1 \<and> i1 < r \<and> even (i1 - i1 mod 2)"
      using even_sub_mod2 by simp
    then have "Some (charAt (au ! nat i1) 1) \<noteq> strain_of (au ! m)" using r(4) by blast
    then show False using dn by (simp add: m_def)
  qed
  define i2 where "i2 = nat r"
  have rpos: "0 \<le> r" using r(2) start(2) by simp
  have i2a: "r = int i2" using rpos by (simp add: i2_def)
  have i2b: "i2 \<le> m" using rle m(1) i2a by simp
  have i2c: "i2 mod 2 = m mod 2" using r(3) parity_diff[of i2 m] unfolding i2a m(1) by simp
  note i2 = i2a i2b i2c
  have hit: "Some (charAt (au ! i2) 1) = strain_of (au ! m)"
  proof (cases "r < ?n - 4")
    case True
    then show ?thesis using r(5) by (simp add: i2_def)
  next
    case False
    then have "i2 = m" using rle m(1,3) i2(1) by simp
    then show ?thesis using dn by simp
  qed
  have vi2: "valid_call (au ! i2)" using valid i2(2) m(2) by simp
  have "Some (charAt (au ! i2) 1) = Some (charAt (au ! m) 1)"
    using hit dn by (simp only:)
  then have named: "strain_of (au ! i2) = strain_of (au ! m)"
    by (rule iffD1[OF valid_call_charAt[OF vi2 m(4)]])
  have first: "\<forall>k<i2. k mod 2 = m mod 2 \<longrightarrow> strain_of (au ! k) \<noteq> strain_of (au ! m)"
  proof (intro allI impI)
    fix k assume k: "k < i2" "k mod 2 = m mod 2"
    have "i1 mod 2 \<le> int k \<and> int k < r \<and> even (int k - i1 mod 2)"
      using k i2(1) mod2_le[OF k(2)] parity_diff[of k m] unfolding m(1) by simp
    then have ne: "Some (charAt (au ! nat (int k)) 1) \<noteq> strain_of (au ! m)" using r(4) by blast
    have vk: "valid_call (au ! k)" using valid k(1) i2(2) m(2) by simp
    show "strain_of (au ! k) \<noteq> strain_of (au ! m)"
    proof
      assume "strain_of (au ! k) = strain_of (au ! m)"
      then have "Some (charAt (au ! k) 1) = Some (charAt (au ! m) 1)"
        by (rule iffD2[OF valid_call_charAt[OF vk m(4)]])
      then show False using ne dn by simp
    qed
  qed
  have d: "0 \<le> indexOf seatorder dl" using dealer_index[OF dl] by simp
  have run: "\<forall>s. auction s = au \<and> dealer s = dl \<longrightarrow>
            auctionContract s = Returned (s\<lparr>contract := Some (au ! m),
              denom := strain_of (au ! m),
              declarer := Some (call_seat (indexOf seatorder dl) i2)\<rparr>)"
  proof (intro allI impI)
    fix s :: app assume s: "auction s = au \<and> dealer s = dl"
    have a: "\<not> auction_incomplete (auction s)" using comp s by (simp add: auction_complete_def)
    have b: "js_index au (scan_i1 au (?n - 4)) = Some (au ! m)"
      using m by (simp add: js_index_in i1_def[symmetric])
    have c: "scan_i2 au (Some (charAt (au ! m) 1)) (js_rem (scan_i1 au (?n - 4)) 2) = Inr (int i2)"
      using r(1) i2(1) start(1) dn by (simp add: i1_def[symmetric])
    have e: "js_rem (indexOf seatorder dl + int i2) 4 = call_seat (indexOf seatorder dl) i2"
      using d by (simp add: js_rem_nonneg call_seat_def)
    show "auctionContract s = Returned (s\<lparr>contract := Some (au ! m),
              denom := strain_of (au ! m),
              declarer := Some (call_seat (indexOf seatorder dl) i2)\<rparr>)"
      using a s b c e m(4) dn by (simp add: auctionContract_def Let_def)
  qed
  have "strain_of (au ! m) \<noteq> None" using m(4) by (simp add: strain_of_def)
  then show ?thesis using m(2) after i2(2,3) named first run by blast
qed


text \<open>
  C4. For a completed auction of valid calls that contains a bid, with the dealer
  one of the four seats: the contract is the last bid; declarer is the seat of
  the first call, among those of the side that made the last bid, that names the
  strain of the last bid; dummy is declarer's partner; and the first card played
  opens the first trick with the seat after declarer as leader.
\<close>

theorem declarer_first_named_strain:
  assumes "auction_complete (auction s)"
    and "\<forall>c\<in>set (auction s). valid_call c"
    and "\<exists>c\<in>set (auction s). strain_of c \<noteq> None"
    and "dealer s \<in> {''s'', ''w'', ''n'', ''e''}"
    and "\<not> seenOpeningLead s"
  shows "\<exists>i1 i2 s' s''.
      auctionContract s = Returned s' \<and> trickcard s c tm = Returned s''
      \<and> i1 < length (auction s) \<and> strain_of (auction s ! i1) \<noteq> None
      \<and> (\<forall>k<length (auction s). i1 < k \<longrightarrow> strain_of (auction s ! k) = None)
      \<and> contract s' = Some (auction s ! i1) \<and> denom s' = strain_of (auction s ! i1)
      \<and> i2 < length (auction s)
      \<and> same_side (call_seat (indexOf seatorder (dealer s)) i2)
                    (call_seat (indexOf seatorder (dealer s)) i1)
      \<and> strain_of (auction s ! i2) = strain_of (auction s ! i1)
      \<and> (\<forall>k<i2. same_side (call_seat (indexOf seatorder (dealer s)) k)
                           (call_seat (indexOf seatorder (dealer s)) i1)
                  \<longrightarrow> strain_of (auction s ! k) \<noteq> strain_of (auction s ! i1))
      \<and> declarer s' = Some (call_seat (indexOf seatorder (dealer s)) i2)
      \<and> dummy_of s' = Some (partner (call_seat (indexOf seatorder (dealer s)) i2))
      \<and> contract s'' = contract s' \<and> declarer s'' = declarer s'
      \<and> seenOpeningLead s'' \<and> tricks s'' = Some []
      \<and> trick s'' = Some \<lparr>leader = Some ((call_seat (indexOf seatorder (dealer s)) i2 + 1) mod 4),
                             cards = [c]\<rparr>"
proof -
  let ?au = "auction s" and ?d = "indexOf seatorder (dealer s)"
  obtain i1 i2 where r: "i1 < length ?au" "strain_of (?au ! i1) \<noteq> None"
      "\<forall>k<length ?au. i1 < k \<longrightarrow> strain_of (?au ! k) = None"
      "i2 \<le> i1" "i2 mod 2 = i1 mod 2" "strain_of (?au ! i2) = strain_of (?au ! i1)"
      "\<forall>k<i2. k mod 2 = i1 mod 2 \<longrightarrow> strain_of (?au ! k) \<noteq> strain_of (?au ! i1)"
      and run: "\<forall>s'. auction s' = ?au \<and> dealer s' = dealer s \<longrightarrow>
            auctionContract s' = Returned (s'\<lparr>contract := Some (?au ! i1),
              denom := strain_of (?au ! i1), declarer := Some (call_seat ?d i2)\<rparr>)"
    using resolve[OF assms(1-4)] by blast
  define s1 where "s1 = s\<lparr>play := play s @ [c],
      actionTime := actionTime s @ [if blast1_complete s then tm - lastActionTime s else 0],
      lastActionTime := tm\<rparr>"
  define s2 where "s2 = s1\<lparr>contract := Some (?au ! i1),
              denom := strain_of (?au ! i1), declarer := Some (call_seat ?d i2)\<rparr>"
  have a: "auctionContract s = Returned (s\<lparr>contract := Some (?au ! i1),
              denom := strain_of (?au ! i1), declarer := Some (call_seat ?d i2)\<rparr>)"
    using run by simp
  have b: "auctionContract s1 = Returned s2" using run by (simp add: s1_def s2_def)
  have np: "?au ! i1 \<noteq> ''Pass''" using r(2) by (auto simp: strain_of_def)
  have dpos: "0 \<le> call_seat ?d i2" using dealer_index[OF assms(4)] by (simp add: call_seat_def)
  have l: "js_rem (call_seat ?d i2 + 1) 4 = (call_seat ?d i2 + 1) mod 4"
    using dpos by (simp add: js_rem_nonneg)
  have o: "opening_lead s1 = Returned (s2\<lparr>seenOpeningLead := True, tricks := Some [],
       trick := Some \<lparr>leader = Some ((call_seat ?d i2 + 1) mod 4), cards = []\<rparr>\<rparr>)"
    using np l by (simp add: opening_lead_def b) (simp add: s2_def)
  have t: "trickcard s c tm = Returned (s2\<lparr>seenOpeningLead := True, tricks := Some [],
       trick := Some \<lparr>leader = Some ((call_seat ?d i2 + 1) mod 4), cards = [c]\<rparr>\<rparr>)"
    using assms(5) o unfolding trickcard_def Let_def s1_def[symmetric]
    by (simp add: s1_def add_card_def)
  have ss: "\<And>k. same_side (call_seat ?d k) (call_seat ?d i1) = (k mod 2 = i1 mod 2)"
    by (rule same_side_call_seat)
  show ?thesis
    apply (rule exI[of _ i1], rule exI[of _ i2])
    apply (intro exI conjI)
                     apply (rule a)
                      apply (rule t)
    using r by (simp_all add: ss dummy_of_def s2_def)
qed


text \<open>Scenario A: contract 2S, declarer North (2), dummy South (0), leader East (3).\<close>

theorem declarer_first_named_strain_witness:
  "auction_complete (auction scenario_A)
   \<and> list_all valid_call (auction scenario_A)
   \<and> list_ex (\<lambda>c. strain_of c \<noteq> None) (auction scenario_A)
   \<and> dealer scenario_A \<in> {''s'', ''w'', ''n'', ''e''}
   \<and> \<not> seenOpeningLead scenario_A
   \<and> (\<exists>s' s''. auctionContract scenario_A = Returned s'
         \<and> trickcard scenario_A ''D5'' 70 = Returned s''
         \<and> contract s' = Some ''2S'' \<and> declarer s' = Some 2 \<and> dummy_of s' = Some 0
         \<and> trick s'' = Some \<lparr>leader = Some 3, cards = [''D5'']\<rparr>)"
proof -
  have h1: "auction_complete (auction scenario_A)" by code_simp
  have l2: "list_all valid_call (auction scenario_A)" by code_simp
  have l3: "list_ex (\<lambda>c. strain_of c \<noteq> None) (auction scenario_A)" by code_simp
  have h2: "\<forall>c\<in>set (auction scenario_A). valid_call c"
    using l2 by (simp add: list_all_iff)
  have h3: "\<exists>c\<in>set (auction scenario_A). strain_of c \<noteq> None"
    using l3 by (simp add: list_ex_iff)
  have h4: "dealer scenario_A \<in> {''s'', ''w'', ''n'', ''e''}" by code_simp
  have h5: "\<not> seenOpeningLead scenario_A" by code_simp
  obtain i1 i2 s' s'' where r:
      "auctionContract scenario_A = Returned s'" "trickcard scenario_A ''D5'' 70 = Returned s''"
      "dummy_of s' = Some (partner (call_seat (indexOf seatorder (dealer scenario_A)) i2))"
      "declarer s' = Some (call_seat (indexOf seatorder (dealer scenario_A)) i2)"
      "trick s'' = Some \<lparr>leader = Some ((call_seat (indexOf seatorder (dealer scenario_A)) i2 + 1) mod 4),
                             cards = [''D5'']\<rparr>"
    using declarer_first_named_strain [OF h1 h2 h3 h4 h5, of "''D5''" 70] by blast
  have v: "contract (state_of (auctionContract scenario_A)) = Some ''2S''
      \<and> declarer (state_of (auctionContract scenario_A)) = Some 2"
    by code_simp
  then have d: "call_seat (indexOf seatorder (dealer scenario_A)) i2 = 2"
    using r(1,4) by simp
  show ?thesis
    using h1 l2 l3 h4 h5 r v unfolding d by (simp add: partner_def)
qed

section \<open>The winner of a trick\<close>

lemma best_inv_init:
  "best_inv cs trump 1 (0, Some (charAt (cs ! 0) 0), indexOf rankorder (charAt (cs ! 0) 1))"
  by (simp add: best_inv_def suit_of_def rank_of_def)

lemma best_inv_step:
  assumes "best_inv cs trump n b" and "0 < n"
  shows "best_inv cs trump (Suc n) (best_step cs trump b n)"
proof -
  obtain bix bd br where b: "b = (bix, bd, br)" by (cases b) auto
  have inv: "bix < n \<and> bd = Some (suit_of (cs ! bix)) \<and> br = rank_of (cs ! bix)
        \<and> ((\<exists>j<n. Some (suit_of (cs ! j)) = trump) \<longrightarrow> bd = trump)
        \<and> (\<not> (\<exists>j<n. Some (suit_of (cs ! j)) = trump) \<longrightarrow> bd = Some (suit_of (cs ! 0)))
        \<and> (\<forall>j<n. Some (suit_of (cs ! j)) = bd \<longrightarrow> rank_of (cs ! j) \<le> br)
        \<and> (\<forall>j<bix. Some (suit_of (cs ! j)) = bd \<longrightarrow> rank_of (cs ! j) < br)"
    using assms(1) unfolding b best_inv_def prod.case .
  have i: "bix < n" "bd = Some (suit_of (cs ! bix))" "br = rank_of (cs ! bix)"
    "(\<exists>j<n. Some (suit_of (cs ! j)) = trump) \<Longrightarrow> bd = trump"
    "\<not> (\<exists>j<n. Some (suit_of (cs ! j)) = trump) \<Longrightarrow> bd = Some (suit_of (cs ! 0))"
    "\<forall>j<n. Some (suit_of (cs ! j)) = bd \<longrightarrow> rank_of (cs ! j) \<le> br"
    "\<forall>j<bix. Some (suit_of (cs ! j)) = bd \<longrightarrow> rank_of (cs ! j) < br"
    using inv by blast+
  let ?dn = "suit_of (cs ! n)" and ?rk = "rank_of (cs ! n)"
  consider (same_hi) "Some ?dn = bd" "?rk > br"
    | (same_lo) "Some ?dn = bd" "\<not> ?rk > br"
    | (ruff) "Some ?dn \<noteq> bd" "Some ?dn = trump"
    | (discard) "Some ?dn \<noteq> bd" "Some ?dn \<noteq> trump"
    by blast
  then show ?thesis
  proof cases
    case same_hi
    then have s: "best_step cs trump b n = (n, bd, ?rk)"
      by (simp add: b best_step_def suit_of_def rank_of_def Let_def)
    have ex: "(\<exists>j<Suc n. Some (suit_of (cs ! j)) = trump) = (\<exists>j<n. Some (suit_of (cs ! j)) = trump)"
      using same_hi(1) i(4,5) assms(2) by (metis less_Suc_eq)
    have le: "\<forall>j<Suc n. Some (suit_of (cs ! j)) = bd \<longrightarrow> rank_of (cs ! j) \<le> ?rk"
      using i(6) same_hi(2) by (metis less_Suc_eq order_less_imp_le order.trans order_refl)
    have lt: "\<forall>j<n. Some (suit_of (cs ! j)) = bd \<longrightarrow> rank_of (cs ! j) < ?rk"
      using i(6) same_hi(2) by (metis order_le_less_trans)
    show ?thesis unfolding s best_inv_def using same_hi(1) i(4,5) le lt ex by simp
  next
    case same_lo
    then have s: "best_step cs trump b n = (bix, bd, br)"
      by (simp add: b best_step_def suit_of_def rank_of_def Let_def)
    have ex: "(\<exists>j<Suc n. Some (suit_of (cs ! j)) = trump) = (\<exists>j<n. Some (suit_of (cs ! j)) = trump)"
      using same_lo(1) i(4,5) assms(2) by (metis less_Suc_eq)
    have le: "\<forall>j<Suc n. Some (suit_of (cs ! j)) = bd \<longrightarrow> rank_of (cs ! j) \<le> br"
      using i(6) same_lo(2) by (metis less_Suc_eq linorder_not_less)
    show ?thesis unfolding s best_inv_def using i(1,2,3,4,5,7) le ex by simp
  next
    case ruff
    then have s: "best_step cs trump b n = (n, trump, ?rk)"
      by (simp add: b best_step_def suit_of_def rank_of_def Let_def)
    have no: "\<forall>j<n. Some (suit_of (cs ! j)) \<noteq> trump"
      using ruff i(4) by metis
    have ex: "\<exists>j<Suc n. Some (suit_of (cs ! j)) = trump" using ruff(2) by blast
    have le: "\<forall>j<Suc n. Some (suit_of (cs ! j)) = trump \<longrightarrow> rank_of (cs ! j) \<le> ?rk"
      using no by (metis less_Suc_eq order_refl)
    show ?thesis unfolding s best_inv_def using ruff(2) no ex le by simp
  next
    case discard
    then have s: "best_step cs trump b n = (bix, bd, br)"
      by (simp add: b best_step_def suit_of_def rank_of_def Let_def)
    have ex: "(\<exists>j<Suc n. Some (suit_of (cs ! j)) = trump) = (\<exists>j<n. Some (suit_of (cs ! j)) = trump)"
      using discard(2) by (metis less_Suc_eq)
    have le: "\<forall>j<Suc n. Some (suit_of (cs ! j)) = bd \<longrightarrow> rank_of (cs ! j) \<le> br"
      using i(6) discard(1) by (metis less_Suc_eq)
    show ?thesis unfolding s best_inv_def using i(1,2,3,4,5,7) le ex by simp
  qed
qed

lemma best_inv_final:
  "best_inv cs trump 4
     (foldl (best_step cs trump)
        (0, Some (charAt (cs ! 0) 0), indexOf rankorder (charAt (cs ! 0) 1)) [1, 2, 3])"
proof -
  let ?b0 = "(0, Some (charAt (cs ! 0) 0), indexOf rankorder (charAt (cs ! 0) 1))"
  have 1: "best_inv cs trump (Suc 1) (best_step cs trump ?b0 1)"
    by (rule best_inv_step[OF best_inv_init]) simp
  have 2: "best_inv cs trump (Suc 2) (best_step cs trump (best_step cs trump ?b0 1) 2)"
    using best_inv_step[OF 1] by (simp add: numeral_2_eq_2)
  have 3: "best_inv cs trump (Suc 3)
      (best_step cs trump (best_step cs trump (best_step cs trump ?b0 1) 2) 3)"
    using best_inv_step[OF 2] by (simp add: numeral_3_eq_3)
  have "Suc 3 = 4" by simp
  then show ?thesis using 3 by simp
qed

lemma winner_spec:
  "trick_winner cs trump < 4
     \<and> eligible cs trump (trick_winner cs trump)
     \<and> (\<forall>j<4. eligible cs trump j \<longrightarrow> rank_of (cs ! j) \<le> rank_of (cs ! trick_winner cs trump))
     \<and> (\<forall>j<4. eligible cs trump j \<and> j < trick_winner cs trump \<longrightarrow>
            rank_of (cs ! j) < rank_of (cs ! trick_winner cs trump))"
proof -
  define b where "b = foldl (best_step cs trump)
        (0, Some (charAt (cs ! 0) 0), indexOf rankorder (charAt (cs ! 0) 1)) [1, 2, 3]"
  obtain bix bd br where bb: "b = (bix, bd, br)" by (cases b) auto
  have w: "trick_winner cs trump = bix"
    unfolding trick_winner_def b_def[symmetric] bb by simp
  have inv: "bix < 4 \<and> bd = Some (suit_of (cs ! bix)) \<and> br = rank_of (cs ! bix)
        \<and> ((\<exists>j<4. Some (suit_of (cs ! j)) = trump) \<longrightarrow> bd = trump)
        \<and> (\<not> (\<exists>j<4. Some (suit_of (cs ! j)) = trump) \<longrightarrow> bd = Some (suit_of (cs ! 0)))
        \<and> (\<forall>j<4. Some (suit_of (cs ! j)) = bd \<longrightarrow> rank_of (cs ! j) \<le> br)
        \<and> (\<forall>j<bix. Some (suit_of (cs ! j)) = bd \<longrightarrow> rank_of (cs ! j) < br)"
    using best_inv_final[of cs trump] unfolding b_def[symmetric] bb best_inv_def prod.case .
  have i: "bix < 4" "bd = Some (suit_of (cs ! bix))" "br = rank_of (cs ! bix)"
    "(\<exists>j<4. Some (suit_of (cs ! j)) = trump) \<Longrightarrow> bd = trump"
    "\<not> (\<exists>j<4. Some (suit_of (cs ! j)) = trump) \<Longrightarrow> bd = Some (suit_of (cs ! 0))"
    "\<forall>j<4. Some (suit_of (cs ! j)) = bd \<longrightarrow> rank_of (cs ! j) \<le> br"
    "\<forall>j<bix. Some (suit_of (cs ! j)) = bd \<longrightarrow> rank_of (cs ! j) < br"
    using inv by blast+
  have el: "\<And>j. eligible cs trump j = (Some (suit_of (cs ! j)) = bd)"
  proof (cases "\<exists>j<4. Some (suit_of (cs ! j)) = trump")
    case True
    fix j show "eligible cs trump j = (Some (suit_of (cs ! j)) = bd)"
      unfolding eligible_def if_P[OF True] using i(4)[OF True] by simp
  next
    case False
    fix j show "eligible cs trump j = (Some (suit_of (cs ! j)) = bd)"
      unfolding eligible_def if_not_P[OF False] using i(5)[OF False] by auto
  qed
  show ?thesis unfolding w el using i(1,2,3,6,7) by simp
qed

lemma valid_cardE:
  assumes "valid_card c"
  obtains d r where "c = [d, r]" "d \<in> set ''CDHS''" "r \<in> set ''23456789TJQKA''"
proof -
  from assms have l: "length c = 2" and d: "c ! 0 \<in> set ''CDHS''"
    and r: "c ! 1 \<in> set ''23456789TJQKA''"
    by (simp_all add: valid_card_def)
  from l obtain a b where "c = [a, b]"
    by (auto simp: length_Suc_conv numeral_2_eq_2)
  with d r that show thesis by simp
qed

lemma rank_cases:
  assumes "r \<in> set ''23456789TJQKA''"
  shows "r = CHR ''2'' \<or> r = CHR ''3'' \<or> r = CHR ''4'' \<or> r = CHR ''5'' \<or> r = CHR ''6''
     \<or> r = CHR ''7'' \<or> r = CHR ''8'' \<or> r = CHR ''9'' \<or> r = CHR ''T'' \<or> r = CHR ''J''
     \<or> r = CHR ''Q'' \<or> r = CHR ''K'' \<or> r = CHR ''A''"
  using assms by (simp only: list.set insert_iff empty_iff simp_thms)

lemma rank_of_rank_value:
  assumes "r \<in> set ''23456789TJQKA''"
  shows "indexOf rankorder [r] = int (rank_value r) - 2
     \<and> rankorder ! nat (indexOf rankorder [r]) = r"
proof -
  have "\<forall>x \<in> set ''23456789TJQKA''. indexOf rankorder [x] = int (rank_value x) - 2
     \<and> rankorder ! nat (indexOf rankorder [x]) = x"
    by code_simp
  then show ?thesis using assms by blast
qed

lemma rank_of_card_rank:
  assumes "valid_card c"
  shows "rank_of c = int (card_rank c) - 2"
proof -
  from assms obtain d r where c: "c = [d, r]" and r: "r \<in> set ''23456789TJQKA''"
    by (rule valid_cardE)
  show ?thesis using rank_of_rank_value[OF r]
    by (simp add: c rank_of_def card_rank_def charAt_def)
qed

lemma same_suit_and_rank:
  assumes "valid_card a" and "valid_card b"
    and "suit_of a = suit_of b" and "rank_of a = rank_of b"
  shows "a = b"
proof -
  from assms(1) obtain d r where a: "a = [d, r]" and r: "r \<in> set ''23456789TJQKA''"
    by (rule valid_cardE)
  from assms(2) obtain d' r' where b: "b = [d', r']" and r': "r' \<in> set ''23456789TJQKA''"
    by (rule valid_cardE)
  have d: "d = d'" using assms(3) by (simp add: a b suit_of_def charAt_def)
  have e: "indexOf rankorder [r] = indexOf rankorder [r']"
    using assms(4) by (simp add: a b rank_of_def charAt_def)
  have 1: "rankorder ! nat (indexOf rankorder [r]) = r"
    using rank_of_rank_value[OF r] by (rule conjunct2)
  have 2: "rankorder ! nat (indexOf rankorder [r']) = r'"
    using rank_of_rank_value[OF r'] by (rule conjunct2)
  have "r = r'" using 1 2 unfolding e by (rule trans[OF sym])
  then show ?thesis using d a b by simp
qed


text \<open>
  C1. When the fourth card of a trick of four valid cards is played, the winning
  card is a trump if any of the four cards is a trump and a card of the suit led
  otherwise; its rank, in the order 2 < 3 < ... < 9 < T < J < Q < K < A, is at least
  that of every eligible card, higher than that of every eligible card played
  before it and, the four cards being distinct, higher than that of every other
  eligible card; a card that is neither of the suit led nor a trump does not win;
  the completed trick is appended to the list of tricks and the new trick is
  opened empty with the seat that played the winning card as leader.
\<close>

theorem fourth_card_winner:
  assumes "seenOpeningLead s" and "trick s = Some t" and "tricks s = Some ts"
    and "length (cards t) = 3" and "leader t = Some l" and "0 \<le> l"
    and "list_all valid_card (cards t @ [c])"
  shows "let cs = cards t @ [c]; trump = denom s; w = trick_winner cs trump in
      w < 4
      \<and> (if \<exists>j<4. Some (suit_of (cs ! j)) = trump then Some (suit_of (cs ! w)) = trump
          else suit_of (cs ! w) = suit_of (cs ! 0))
      \<and> (\<forall>j<4. eligible cs trump j \<longrightarrow> card_rank (cs ! j) \<le> card_rank (cs ! w))
      \<and> (\<forall>j<4. eligible cs trump j \<and> j < w \<longrightarrow> card_rank (cs ! j) < card_rank (cs ! w))
      \<and> (distinct cs \<longrightarrow>
            (\<forall>j<4. eligible cs trump j \<and> j \<noteq> w \<longrightarrow> card_rank (cs ! j) < card_rank (cs ! w)))
      \<and> (\<forall>j<4. suit_of (cs ! j) \<noteq> suit_of (cs ! 0) \<and> Some (suit_of (cs ! j)) \<noteq> trump \<longrightarrow> w \<noteq> j)
      \<and> (\<exists>s'. trickcard s c tm = Returned s'
            \<and> tricks s' = Some (ts @ [\<lparr>leader = Some l, cards = cs\<rparr>])
            \<and> trick s' = Some \<lparr>leader = Some ((l + int w) mod 4), cards = []\<rparr>)"
proof -
  define cs where "cs = cards t @ [c]"
  define w where "w = trick_winner cs (denom s)"
  have j: "js_rem (l + int w) 4 = (l + int w) mod 4" using assms(6) by (simp add: js_rem_nonneg)
  have len: "length (cards t @ [c]) = 4" using assms(4) by simp
  have len': "length cs = 4" unfolding cs_def by (rule len)
  have vc: "\<And>j. j < 4 \<Longrightarrow> valid_card (cs ! j)"
    using assms(7) len' unfolding cs_def[symmetric] by (simp add: list_all_length)
  have rk: "\<And>j. j < 4 \<Longrightarrow> rank_of (cs ! j) = int (card_rank (cs ! j)) - 2"
    by (rule rank_of_card_rank[OF vc])
  have a: "add_card
             (s\<lparr>play := play s @ [c],
                actionTime := actionTime s @ [if blast1_complete s then tm - lastActionTime s else 0],
                lastActionTime := tm\<rparr>) c
           = Returned
      (s\<lparr>play := play s @ [c],
          actionTime := actionTime s @ [if blast1_complete s then tm - lastActionTime s else 0],
          lastActionTime := tm,
          trick := Some \<lparr>leader = Some ((l + int w) mod 4), cards = []\<rparr>,
          tricks := Some (ts @ [\<lparr>leader = Some l, cards = cs\<rparr>])\<rparr>)"
    using assms(2,3,5) len j unfolding add_card_def Let_def w_def cs_def
    by simp
  have run: "trickcard s c tm = Returned
      (s\<lparr>play := play s @ [c],
          actionTime := actionTime s @ [if blast1_complete s then tm - lastActionTime s else 0],
          lastActionTime := tm,
          trick := Some \<lparr>leader = Some ((l + int w) mod 4), cards = []\<rparr>,
          tricks := Some (ts @ [\<lparr>leader = Some l, cards = cs\<rparr>])\<rparr>)"
    using assms(1) a unfolding trickcard_def Let_def by simp
  have sp: "w < 4 \<and> eligible cs (denom s) w
     \<and> (\<forall>j<4. eligible cs (denom s) j \<longrightarrow> rank_of (cs ! j) \<le> rank_of (cs ! w))
     \<and> (\<forall>j<4. eligible cs (denom s) j \<and> j < w \<longrightarrow> rank_of (cs ! j) < rank_of (cs ! w))"
    unfolding w_def by (rule winner_spec)
  have w4: "w < 4" and ew: "eligible cs (denom s) w" using sp by blast+
  have le: "\<forall>j<4. eligible cs (denom s) j \<longrightarrow> card_rank (cs ! j) \<le> card_rank (cs ! w)"
  proof (intro allI impI)
    fix j assume h: "j < 4" "eligible cs (denom s) j"
    have "rank_of (cs ! j) \<le> rank_of (cs ! w)" using sp h by blast
    then show "card_rank (cs ! j) \<le> card_rank (cs ! w)"
      unfolding rk[OF h(1)] rk[OF w4] by simp
  qed
  have lt: "\<forall>j<4. eligible cs (denom s) j \<and> j < w \<longrightarrow> card_rank (cs ! j) < card_rank (cs ! w)"
  proof (intro allI impI)
    fix j assume h: "j < 4" "eligible cs (denom s) j \<and> j < w"
    have "rank_of (cs ! j) < rank_of (cs ! w)" using sp h by blast
    then show "card_rank (cs ! j) < card_rank (cs ! w)"
      unfolding rk[OF h(1)] rk[OF w4] by simp
  qed
  have el: "if \<exists>j<4. Some (suit_of (cs ! j)) = denom s then Some (suit_of (cs ! w)) = denom s
          else suit_of (cs ! w) = suit_of (cs ! 0)"
    using ew unfolding eligible_def .
  have st: "distinct cs \<longrightarrow>
      (\<forall>j<4. eligible cs (denom s) j \<and> j \<noteq> w \<longrightarrow> card_rank (cs ! j) < card_rank (cs ! w))"
  proof (intro allI impI)
    fix j assume d: "distinct cs" and h: "j < 4" "eligible cs (denom s) j \<and> j \<noteq> w"
    have ss: "suit_of (cs ! j) = suit_of (cs ! w)"
    proof (cases "\<exists>j<4. Some (suit_of (cs ! j)) = denom s")
      case True
      have "Some (suit_of (cs ! j)) = denom s" "Some (suit_of (cs ! w)) = denom s"
        using h(2) ew unfolding eligible_def if_P[OF True] by blast+
      then show ?thesis by (metis option.inject)
    next
      case False
      have "suit_of (cs ! j) = suit_of (cs ! 0)" "suit_of (cs ! w) = suit_of (cs ! 0)"
        using h(2) ew unfolding eligible_def if_not_P[OF False] by blast+
      then show ?thesis by simp
    qed
    have ne: "cs ! j \<noteq> cs ! w"
      using d h w4 len' by (simp add: nth_eq_iff_index_eq)
    have "rank_of (cs ! j) \<noteq> rank_of (cs ! w)"
      using same_suit_and_rank[OF vc[OF h(1)] vc[OF w4] ss] ne by blast
    then have "card_rank (cs ! j) \<noteq> card_rank (cs ! w)"
      unfolding rk[OF h(1)] rk[OF w4] by simp
    moreover have "card_rank (cs ! j) \<le> card_rank (cs ! w)" using le h by blast
    ultimately show "card_rank (cs ! j) < card_rank (cs ! w)" by simp
  qed
  have ne: "\<forall>j<4. suit_of (cs ! j) \<noteq> suit_of (cs ! 0) \<and> Some (suit_of (cs ! j)) \<noteq> denom s
        \<longrightarrow> w \<noteq> j"
  proof (intro allI impI notI)
    fix j assume h: "j < 4" "suit_of (cs ! j) \<noteq> suit_of (cs ! 0) \<and> Some (suit_of (cs ! j)) \<noteq> denom s"
      "w = j"
    show False using el h(2) unfolding h(3) by (cases "\<exists>j<4. Some (suit_of (cs ! j)) = denom s") simp_all
  qed
  have ex: "\<exists>s'. trickcard s c tm = Returned s'
            \<and> tricks s' = Some (ts @ [\<lparr>leader = Some l, cards = cs\<rparr>])
            \<and> trick s' = Some \<lparr>leader = Some ((l + int w) mod 4), cards = []\<rparr>"
    unfolding run by simp
  show ?thesis
    unfolding Let_def cs_def[symmetric] w_def[symmetric]
    using w4 el le lt st ne ex by blast
qed

text \<open>
  Hearts are trumps; East leads SA, South ruffs with H2, West overruffs with HK
  and North follows with SQ. The winner is the higher of the two trumps, although
  the ace led outranks both.
\<close>

theorem fourth_card_winner_witness:
  "seenOpeningLead scenario_ruffs
   \<and> trick scenario_ruffs = Some \<lparr>leader = Some 3, cards = [''SA'', ''H2'', ''HK'']\<rparr>
   \<and> tricks scenario_ruffs = Some [] \<and> denom scenario_ruffs = Some ''H''
   \<and> list_all valid_card [''SA'', ''H2'', ''HK'', ''SQ'']
   \<and> card_rank ''H2'' < card_rank ''HK'' \<and> card_rank ''HK'' < card_rank ''SA''
   \<and> trick_winner [''SA'', ''H2'', ''HK'', ''SQ''] (Some ''H'') = 2
   \<and> (\<exists>s'. trickcard scenario_ruffs ''SQ'' 80 = Returned s'
         \<and> tricks s' = Some [\<lparr>leader = Some 3, cards = [''SA'', ''H2'', ''HK'', ''SQ'']\<rparr>]
         \<and> trick s' = Some \<lparr>leader = Some 1, cards = []\<rparr>)"
proof -
  define cs where "cs = [''SA'', ''H2'', ''HK'', ''SQ'']"
  define w where "w = trick_winner cs (Some ''H'')"
  define t where "t = \<lparr>leader = Some (3::int), cards = [''SA'', ''H2'', ''HK'']\<rparr>"
  have h1: "seenOpeningLead scenario_ruffs" by code_simp
  have h2: "trick scenario_ruffs = Some t" unfolding t_def by code_simp
  have h3: "tricks scenario_ruffs = Some []" by code_simp
  have h4: "denom scenario_ruffs = Some ''H''" by code_simp
  have l3: "length (cards t) = 3" and ld: "leader t = Some 3" by (simp_all add: t_def)
  have z: "(0::int) \<le> 3" by simp
  have ct: "cards t @ [''SQ''] = cs" by (simp add: t_def cs_def)
  have h7: "list_all valid_card cs" unfolding cs_def by code_simp
  have h7': "list_all valid_card (cards t @ [''SQ''])" unfolding ct by (rule h7)
  have r: "card_rank ''H2'' < card_rank ''HK'' \<and> card_rank ''HK'' < card_rank ''SA''"
    by code_simp
  have su: "suit_of (cs ! 0) = ''S''" "suit_of (cs ! 1) = ''H''" "suit_of (cs ! 2) = ''H''"
    "suit_of (cs ! 3) = ''S''"
    unfolding cs_def by (simp_all add: suit_of_def charAt_def)
  have tr: "\<exists>j<4. Some (suit_of (cs ! j)) = Some ''H''"
    using su(2) by (intro exI[of _ 1]) simp
  have e2: "eligible cs (Some ''H'') 2" unfolding eligible_def if_P[OF tr] using su(3) by simp
  note T = fourth_card_winner [OF h1 h2 h3 l3 ld z h7', of 80,
      unfolded Let_def ct h4 w_def[symmetric] if_P[OF tr]]
  have w4: "w < 4" using T by (rule conjunct1)
  have ws: "Some (suit_of (cs ! w)) = Some ''H''" using T by blast
  have al: "\<forall>j<4. eligible cs (Some ''H'') j \<longrightarrow> card_rank (cs ! j) \<le> card_rank (cs ! w)"
    using T by blast
  have wr: "card_rank (cs ! 2) \<le> card_rank (cs ! w)" using al e2 by simp
  have ex: "\<exists>s'. trickcard scenario_ruffs ''SQ'' 80 = Returned s'
            \<and> tricks s' = Some ([] @ [\<lparr>leader = Some 3, cards = cs\<rparr>])
            \<and> trick s' = Some \<lparr>leader = Some ((3 + int w) mod 4), cards = []\<rparr>"
    using T by blast
  have "w = 0 \<or> w = 1 \<or> w = 2 \<or> w = 3" using w4 by arith
  then have "w = 1 \<or> w = 2" using ws su by auto
  moreover have "w \<noteq> 1" using wr r unfolding cs_def by auto
  ultimately have w2: "w = 2" by simp
  have "\<exists>s'. trickcard scenario_ruffs ''SQ'' 80 = Returned s'
         \<and> tricks s' = Some [\<lparr>leader = Some 3, cards = [''SA'', ''H2'', ''HK'', ''SQ'']\<rparr>]
         \<and> trick s' = Some \<lparr>leader = Some 1, cards = []\<rparr>"
    using ex unfolding w2 cs_def by simp
  then show ?thesis using h1 h2 h3 h4 h7 r w2 unfolding w_def cs_def t_def by blast
qed

section \<open>Rolling back into the auction\<close>




lemma call_keeps:
  assumes "is_call ev"
  shows "declarer (step s ev) = declarer s \<and> seenOpeningLead (step s ev) = seenOpeningLead s
     \<and> trick (step s ev) = trick s"
  using assms by (cases ev) (simp_all add: call_made_def make_bid_def Let_def)

lemma calls_keep:
  "list_all is_call evs \<Longrightarrow>
     declarer (run s evs) = declarer s \<and> seenOpeningLead (run s evs) = seenOpeningLead s
     \<and> trick (run s evs) = trick s"
proof (induction evs arbitrary: s)
  case Nil
  show ?case by (simp add: run_def)
next
  case (Cons ev evs)
  have r: "run s (ev # evs) = run (step s ev) evs" by (simp add: run_def)
  have 1: "is_call ev" and 2: "list_all is_call evs" using Cons.prems by simp_all
  show ?case unfolding r using Cons.IH[OF 2, of "step s ev"] call_keeps[OF 1, of s] by simp
qed

text \<open>
  C6. An undo whose count exceeds the number of cards played takes the tracker
  back to the auction: the opening-lead flag is cleared, the play is emptied and
  the auction is truncated by the remainder. The Contract, denomination and
  Declarer fields, and with them the Dummy, are not cleared: they keep the values
  of the contract that was rolled back, through every call that follows. The
  handler of the next card played reads that Declarer and reports the seat after
  it as the player of the opening lead.
\<close>

theorem undo_keeps_declarer:
  assumes "counted s" and "length (play s) < count" and "count \<le> length (actionTime s)"
    and "list_all is_call evs"
  shows "\<exists>s'. undo s count pos ts = Returned s'
           \<and> \<not> seenOpeningLead s' \<and> play s' = []
           \<and> auction s' = take (length (auction s) - (count - length (play s))) (auction s)
           \<and> contract s' = contract s \<and> denom s' = denom s \<and> declarer s' = declarer s
           \<and> dummy_of s' = dummy_of s \<and> trick s' = trick s
           \<and> card_played_player (run s' evs)
               = (case declarer s of Some d \<Rightarrow> js_index seats (js_rem (d + 1) 4)
                  | None \<Rightarrow> Some ''?'')"
proof -
  define s' where "s' = s\<lparr>lastActionTime := ts,
              actionTime := take (length (actionTime s) - count) (actionTime s),
              seenOpeningLead := False, play := [],
              auction := take (length (auction s) - (count - length (play s))) (auction s),
              amDummy := False\<rparr>"
  have n0: "count \<noteq> 0" using assms(2) by simp
  have u: "undo s count pos ts = Returned s'"
    using assms(1,2,3) n0 unfolding s'_def counted_def
    by (simp add: undo_def undo_apply_def Let_def)
  have k: "declarer (run s' evs) = declarer s \<and> \<not> seenOpeningLead (run s' evs)"
    using calls_keep[OF assms(4), of s'] by (simp add: s'_def)
  have p: "card_played_player (run s' evs)
               = (case declarer s of Some d \<Rightarrow> js_index seats (js_rem (d + 1) 4)
                  | None \<Rightarrow> Some ''?'')"
    using k by (simp add: card_played_player_def)
  show ?thesis unfolding u using p by (simp add: s'_def dummy_of_def)
qed

text \<open>
  In the deal bid again, West declares 1S and North is on lead; the handler still
  holds North as declarer and reports East as the player of the opening lead D5.
\<close>

theorem undo_keeps_declarer_witness:
  "counted stale_deal
   \<and> length (play stale_deal) < 2 \<and> 2 \<le> length (actionTime stale_deal)
   \<and> list_all is_call stale_calls
   \<and> declarer stale_deal = Some 2
   \<and> auction (state_of (undo stale_deal 2 None 60)) = [''1H'', ''p'', ''p'']
   \<and> declarer (state_of (undo stale_deal 2 None 60)) = Some 2
   \<and> card_played_player (run (state_of (undo stale_deal 2 None 60)) stale_calls) = Some ''E''
   \<and> map_option ev_player
        (snd (card_played (run (state_of (undo stale_deal 2 None 60)) stale_calls) ''D5'' 110))
       = Some (Some ''E'')
   \<and> declarer (state_of (fst
        (card_played (run (state_of (undo stale_deal 2 None 60)) stale_calls) ''D5'' 110)))
       = Some 1
   \<and> trick (state_of (fst
        (card_played (run (state_of (undo stale_deal 2 None 60)) stale_calls) ''D5'' 110)))
       = Some \<lparr>leader = Some 2, cards = [''D5'']\<rparr>
   \<and> js_index seats 2 = Some ''N''"
proof -
  have h0: "counted stale_deal" by code_simp
  have h1: "length (play stale_deal) < 2" by code_simp
  have h2: "2 \<le> length (actionTime stale_deal)" by code_simp
  have h3: "list_all is_call stale_calls" by code_simp
  have d: "declarer stale_deal = Some 2" by code_simp
  have a: "auction (state_of (undo stale_deal 2 None 60)) = [''1H'', ''p'', ''p'']" by code_simp
  have e: "js_index seats (js_rem (2 + 1) 4) = Some ''E''" by code_simp
  obtain s' where u: "undo stale_deal 2 None 60 = Returned s'"
    and ds: "declarer s' = declarer stale_deal"
    and p: "card_played_player (run s' stale_calls)
               = (case declarer stale_deal of Some d \<Rightarrow> js_index seats (js_rem (d + 1) 4)
                  | None \<Rightarrow> Some ''?'')"
    using undo_keeps_declarer [OF h0 h1 h2 h3, of None 60] by blast
  have s: "state_of (undo stale_deal 2 None 60) = s'" unfolding u by simp
  have p': "card_played_player (run (state_of (undo stale_deal 2 None 60)) stale_calls) = Some ''E''"
    unfolding s p d using e by simp
  have d': "declarer (state_of (undo stale_deal 2 None 60)) = Some 2"
    unfolding s ds d ..
  have c1: "map_option ev_player
        (snd (card_played (run (state_of (undo stale_deal 2 None 60)) stale_calls) ''D5'' 110))
       = Some (Some ''E'')" by code_simp
  have c2: "declarer (state_of (fst
        (card_played (run (state_of (undo stale_deal 2 None 60)) stale_calls) ''D5'' 110)))
       = Some 1" by code_simp
  have c3: "trick (state_of (fst
        (card_played (run (state_of (undo stale_deal 2 None 60)) stale_calls) ''D5'' 110)))
       = Some \<lparr>leader = Some 2, cards = [''D5'']\<rparr>" by code_simp
  have c4: "js_index seats 2 = Some ''N''" by code_simp
  show ?thesis using h0 h1 h2 h3 d a d' p' c1 c2 c3 c4 by blast
qed

section \<open>Accepting a double-dummy result\<close>

lemma js_rem_16: "(js_rem x 16 = 0) = (16 dvd x)"
proof -
  have "(js_rem x 16 = 0) = (\<bar>x\<bar> mod 16 = 0)"
    by (cases "x = 0") (simp_all add: js_rem_def sgn_if)
  also have "\<dots> = (16 dvd \<bar>x\<bar>)" by (simp add: dvd_eq_mod_eq_0)
  also have "\<dots> = (16 dvd x)" by simp
  finally show ?thesis .
qed

lemma dealsMatch_spec:
  assumes "\<forall>i\<in>set is. i < length d2h"
  shows "dealsMatch dh d2h is
           = Inr (\<forall>i\<in>set is. length (d2h ! i) = 16 \<longrightarrow> js_index dh (int i) = Some (d2h ! i))"
  using assms
proof (induction "is")
  case Nil
  then show ?case by simp
next
  case (Cons i rest)
  have ix: "js_index d2h (int i) = Some (d2h ! i)" using Cons.prems by (simp add: js_index_def)
  have ih: "dealsMatch dh d2h rest
           = Inr (\<forall>i\<in>set rest. length (d2h ! i) = 16 \<longrightarrow> js_index dh (int i) = Some (d2h ! i))"
    using Cons by simp
  show ?case by (simp add: ix ih) 
qed

lemma set_0123: "(\<forall>i\<in>set [0, 1, 2, 3::nat]. P i) = (\<forall>i<4. P i)"
proof -
  have "set [0, 1, 2, 3::nat] = {i. i < 4}" by auto
  then show ?thesis by (simp only: Ball_def mem_Collect_eq)
qed

text \<open>
  C8, as the code has it. With both board numbers parsed and four hands read
  from the viewer, the result is rejected when the board numbers differ modulo
  16 (with a message, or with a request to try again when the viewer shows board
  99) or when a hand the viewer shows in full differs from the hand of the
  analysed deal; otherwise it is applied. Hands not shown in full are not
  compared.
\<close>

theorem dd_checks_mod16_and_full_hands:
  assumes "length d2_hand = 4"
  shows "showDoubleDummy_checks (Some a) d_hand (Some b) (Some d2_hand)
     = Inr (if 16 dvd (a - b) then
              (if \<forall>i<4. length (d2_hand ! i) = 16 \<longrightarrow> js_index d_hand (int i) = Some (d2_hand ! i)
               then Proceed else DealsDoNotMatch)
            else if b = 99 then NoResponse
            else BoardNumberMismatch (Some a) (Some b))"
proof -
  have r: "\<forall>i\<in>set [0, 1, 2, 3::nat]. i < length d2_hand" using assms by simp
  have m: "dealsMatch d_hand d2_hand [0, 1, 2, 3]
      = Inr (\<forall>i<4. length (d2_hand ! i) = 16 \<longrightarrow> js_index d_hand (int i) = Some (d2_hand ! i))"
    using dealsMatch_spec[OF r, of d_hand] by (simp only: set_0123)
  show ?thesis
    by (simp add: showDoubleDummy_checks_def bnum_differs_def js_rem_16 m
          del: dealsMatch.simps One_nat_def) blast
qed

text \<open>The same board and the same four full hands pass the checks.\<close>

theorem dd_checks_mod16_and_full_hands_witness:
  "length [''AKQ.JT9.876.5432'', ''J.AKQ.AKQJT.JT98'', ''T98.8765.5432.AK'', ''765432.432.9.Q76'']
     = (4::nat)
   \<and> showDoubleDummy_checks (Some 3)
        [''AKQ.JT9.876.5432'', ''J.AKQ.AKQJT.JT98'', ''T98.8765.5432.AK'', ''765432.432.9.Q76'']
        (Some 3)
        (Some [''AKQ.JT9.876.5432'', ''J.AKQ.AKQJT.JT98'', ''T98.8765.5432.AK'', ''765432.432.9.Q76''])
      = Inr Proceed"
  using dd_checks_mod16_and_full_hands
    [of "[''AKQ.JT9.876.5432'', ''J.AKQ.AKQJT.JT98'', ''T98.8765.5432.AK'', ''765432.432.9.Q76'']"
        3 "[''AKQ.JT9.876.5432'', ''J.AKQ.AKQJT.JT98'', ''T98.8765.5432.AK'', ''765432.432.9.Q76'']" 3]
  by (simp add: set_0123[symmetric] js_index_def)

text \<open>
  C8, as the specification states it, fails: an analysis of board 1 is accepted
  for a viewer that shows board 17 with four different, partly played hands.
\<close>

theorem dd_checks_counterexample:
  "(1::int) \<noteq> 17
   \<and> [''AKQ.JT9.876.5432'', ''J.AKQ.AKQJT.JT98'', ''T98.8765.5432.AK'', ''765432.432.9.Q76'']
       \<noteq> [''KQ.JT9.876.5432'', ''.AKQ.AKQJT.JT98'', ''AT98.8765.5432.'', ''J76543.432.9.76'']
   \<and> showDoubleDummy_checks (Some 1)
        [''AKQ.JT9.876.5432'', ''J.AKQ.AKQJT.JT98'', ''T98.8765.5432.AK'', ''765432.432.9.Q76'']
        (Some 17)
        (Some [''KQ.JT9.876.5432'', ''.AKQ.AKQJT.JT98'', ''AT98.8765.5432.'', ''J76543.432.9.76''])
      = Inr Proceed"
  by code_simp

section \<open>Recommendations are legal cards\<close>

lemma select_card_member: "select_card key best cs \<in> set (best # cs)"
  by (induction cs arbitrary: best) auto

lemma legal_cards_subset: "set (legal_cards d) \<subseteq> set (snap_hands d (seat_on_play d))"
  by (auto simp: legal_cards_def Let_def split: list.splits)

lemma legal_cards_follow:
  assumes "snap_cards d = led # others"
    and "\<exists>h\<in>set (snap_hands d (seat_on_play d)). fst h = fst led"
    and "c \<in> set (legal_cards d)"
  shows "fst c = fst led"
proof -
  have "filter (\<lambda>c. fst c = fst led) (snap_hands d (seat_on_play d)) \<noteq> []"
    using assms(2) by (simp add: filter_empty_conv)
  then have "legal_cards d = filter (\<lambda>c. fst c = fst led) (snap_hands d (seat_on_play d))"
    using assms(1) by (simp add: legal_cards_def Let_def)
  then show ?thesis using assms(3) by simp
qed

lemma recommend_legal:
  assumes "recommend d dd = Inr (c, r)"
  shows "c \<in> set (legal_cards d)"
proof (cases "legal_cards d")
  case Nil
  then show ?thesis using assms by (simp add: recommend_def)
next
  case (Cons c0 rest)
  then obtain key where "c = select_card key c0 rest"
    using assms by (auto simp: recommend_def Let_def split: option.splits if_splits)
  then show ?thesis using select_card_member[of key c0 rest] Cons by simp
qed

text \<open>
  C9. A card that \<open>recommend\<close> returns is in the remaining hand of the seat on
  play, and when the trick in progress is not empty and that hand holds a card of
  the suit led, the card is of the suit led.
\<close>

theorem recommend_in_hand_and_follows_suit:
  assumes "recommend d dd = Inr (c, r)"
  shows "c \<in> set (snap_hands d (seat_on_play d))
     \<and> (\<forall>led others. snap_cards d = led # others
           \<and> (\<exists>h\<in>set (snap_hands d (seat_on_play d)). fst h = fst led)
         \<longrightarrow> fst c = fst led)"
  using recommend_legal[OF assms] legal_cards_subset[of d] legal_cards_follow[of d]
  by blast

text \<open>West, second to play to a heart lead, holds two hearts and the ace of spades.\<close>

theorem recommend_in_hand_and_follows_suit_witness:
  "recommend example_snapshot (Some example_table) = Inr ((Hearts, 9), (Notrump, 9))
   \<and> (Hearts, 9) \<in> set (snap_hands example_snapshot (seat_on_play example_snapshot))"
proof -
  have r: "recommend example_snapshot (Some example_table) = Inr ((Hearts, 9), (Notrump, 9))"
    by code_simp
  show ?thesis using r recommend_in_hand_and_follows_suit[OF r] by blast
qed


section \<open>Undo followed by replay\<close>

lemma set3_sel [simp]:
  "dealer (set3 a l p s) = dealer s"
  "blast1_complete (set3 a l p s) = blast1_complete s"
  "blast2_complete (set3 a l p s) = blast2_complete s"
  "seenOpeningLead (set3 a l p s) = seenOpeningLead s"
  "amDummy (set3 a l p s) = amDummy s"
  "reseating (set3 a l p s) = reseating s"
  "auction (set3 a l p s) = auction s"
  "contract (set3 a l p s) = contract s"
  "denom (set3 a l p s) = denom s"
  "declarer (set3 a l p s) = declarer s"
  "tricks (set3 a l p s) = tricks s"
  "trick (set3 a l p s) = trick s"
  "play (set3 a l p s) = p"
  "actionTime (set3 a l p s) = a"
  "lastActionTime (set3 a l p s) = l"
  by (simp_all add: set3_def)

lemma set3_upd [simp]:
  "set3 a l p (s\<lparr>contract := x1\<rparr>) = (set3 a l p s)\<lparr>contract := x1\<rparr>"
  "set3 a l p (s\<lparr>denom := x2\<rparr>) = (set3 a l p s)\<lparr>denom := x2\<rparr>"
  "set3 a l p (s\<lparr>declarer := x3\<rparr>) = (set3 a l p s)\<lparr>declarer := x3\<rparr>"
  "set3 a l p (s\<lparr>tricks := x4\<rparr>) = (set3 a l p s)\<lparr>tricks := x4\<rparr>"
  "set3 a l p (s\<lparr>trick := x5\<rparr>) = (set3 a l p s)\<lparr>trick := x5\<rparr>"
  "set3 a l p (s\<lparr>seenOpeningLead := x6\<rparr>) = (set3 a l p s)\<lparr>seenOpeningLead := x6\<rparr>"
  "set3 a l p (s\<lparr>auction := x7\<rparr>) = (set3 a l p s)\<lparr>auction := x7\<rparr>"
  "set3 a l p (s\<lparr>amDummy := x8\<rparr>) = (set3 a l p s)\<lparr>amDummy := x8\<rparr>"
  by (rule app.equality; simp add: set3_def)+

lemma set3_set3 [simp]: "set3 a l p (set3 a' l' p' s) = set3 a l p s"
  by (simp add: set3_def)

lemma set3_over [simp]:
  "set3 a l p (s\<lparr>play := p'\<rparr>) = set3 a l p s"
  "set3 a l p (s\<lparr>actionTime := a'\<rparr>) = set3 a l p s"
  "set3 a l p (s\<lparr>lastActionTime := l'\<rparr>) = set3 a l p s"
  by (rule app.equality; simp add: set3_def)+










lemma playingI:
  "seenOpeningLead s \<Longrightarrow> trick s = Some t \<Longrightarrow> tricks s = Some ts
     \<Longrightarrow> length (cards t) < 4 \<Longrightarrow> playing s"
  by (simp add: playing_def)





lemma trick_obj_same: "t\<lparr>cards := cards t\<rparr> = t"
  by simp





































lemma flags_upd [simp]:
  "flags d b1 b2 (s\<lparr>contract := x1\<rparr>) = (flags d b1 b2 s)\<lparr>contract := x1\<rparr>"
  "flags d b1 b2 (s\<lparr>denom := x2\<rparr>) = (flags d b1 b2 s)\<lparr>denom := x2\<rparr>"
  "flags d b1 b2 (s\<lparr>declarer := x3\<rparr>) = (flags d b1 b2 s)\<lparr>declarer := x3\<rparr>"
  "flags d b1 b2 (s\<lparr>tricks := x4\<rparr>) = (flags d b1 b2 s)\<lparr>tricks := x4\<rparr>"
  "flags d b1 b2 (s\<lparr>trick := x5\<rparr>) = (flags d b1 b2 s)\<lparr>trick := x5\<rparr>"
  "flags d b1 b2 (s\<lparr>seenOpeningLead := x6\<rparr>) = (flags d b1 b2 s)\<lparr>seenOpeningLead := x6\<rparr>"
  "flags d b1 b2 (s\<lparr>auction := x7\<rparr>) = (flags d b1 b2 s)\<lparr>auction := x7\<rparr>"
  by (rule app.equality; simp add: flags_def)+















end
